theory Spec2Isabelle
  imports Complex_Main "HOL-Library.Sublist"
begin

section \<open>Strings\<close>

text \<open>
  A Python \<^verbatim>\<open>str\<close> is a sequence of code points and \<^verbatim>\<open>len\<close> counts them. Content is
  modelled as a \<^typ>\<open>string\<close> whose characters are the code points U+0000 to U+00FF, one
  \<^typ>\<open>char\<close> per code point, so \<^const>\<open>length\<close> is \<^verbatim>\<open>len\<close>. On this range
  \<^verbatim>\<open>str.isspace\<close>, \<^verbatim>\<open>str.strip()\<close> and \<^verbatim>\<open>str.lower()\<close> are the functions below; code
  points above U+00FF are outside the model.
\<close>

definition isspace :: "char \<Rightarrow> bool" where
  \<comment> \<open>the characters \<^verbatim>\<open>strip()\<close> removes: TAB to CR, FS to US and SPACE, NEL, NBSP\<close>
  "isspace c = (let n = (of_char c :: nat) in
     (9 \<le> n \<and> n \<le> 13) \<or> (28 \<le> n \<and> n \<le> 32) \<or> n = 133 \<or> n = 160)"

definition lower_char :: "char \<Rightarrow> char" where
  \<comment> \<open>A to Z, and the capital letters U+00C0 to U+00DE without the multiplication sign\<close>
  "lower_char c = (let n = (of_char c :: nat) in
     if (65 \<le> n \<and> n \<le> 90) \<or> (192 \<le> n \<and> n \<le> 222 \<and> n \<noteq> 215)
     then char_of (n + 32) else c)"

definition lower :: "string \<Rightarrow> string" where
  "lower s = map lower_char s"

definition strip :: "string \<Rightarrow> string" where
  "strip s = rev (dropWhile isspace (rev (dropWhile isspace s)))"

definition truthy :: "string option \<Rightarrow> bool" where
  \<comment> \<open>Python's truth value of a \<^verbatim>\<open>str\<close> or \<^verbatim>\<open>None\<close>\<close>
  "truthy content = (case content of None \<Rightarrow> False | Some s \<Rightarrow> s \<noteq> [])"

section \<open>ContentValidator\<close>

definition html_indicators :: "string list" where
  "html_indicators = [''<html'', ''<body'', ''<div'', ''<p'', ''<span'']"

definition has_html_indicator :: "string \<Rightarrow> bool" where
  \<comment> \<open>\<^verbatim>\<open>any(indicator in content.lower() for indicator in html_indicators)\<close>\<close>
  "has_html_indicator content =
     list_ex (\<lambda>indicator. sublist indicator (lower content)) html_indicators"

definition is_valid_content :: "string option \<Rightarrow> bool" where
  "is_valid_content content =
     (case content of
        None \<Rightarrow> False
      | Some raw \<Rightarrow>
          if raw = [] then False
          else let content = strip raw in
            if length content < 100 then False
            else if has_html_indicator content then True
            else if length content > 500 then True
            else False)"

section \<open>Exceptions and results\<close>

text \<open>
  Every \<^verbatim>\<open>try\<close> of the program catches \<^verbatim>\<open>Exception\<close>, so the faults of the model are the
  instances of \<^verbatim>\<open>Exception\<close>, each with its message: \<open>ValueError\<close> and \<open>OverflowError\<close> are
  the two subclasses the arithmetic and \<^verbatim>\<open>time.sleep\<close> raise, \<open>Exception\<close> stands for any
  other. A call either raises one or returns a value. Content is a \<^verbatim>\<open>str\<close> or \<^verbatim>\<open>None\<close>. The
  \<^verbatim>\<open>print\<close> calls do not change the control flow and are left out.
\<close>

datatype exn = Exception string | ValueError string | OverflowError string

datatype 'a outcome = Raises exn | Returns 'a

type_synonym content = "string option"

definition try_except :: "'a outcome \<Rightarrow> (exn \<Rightarrow> 'a outcome) \<Rightarrow> 'a outcome" where
  \<comment> \<open>\<^verbatim>\<open>try: body  except Exception as e: handler\<close>\<close>
  "try_except body handler = (case body of Raises e \<Rightarrow> handler e | Returns v \<Rightarrow> Returns v)"

definition try_finally :: "'a outcome \<Rightarrow> unit outcome \<Rightarrow> 'a outcome" where
  \<comment> \<open>\<^verbatim>\<open>try: body  finally: cleanup\<close>: an exception of the cleanup replaces the result\<close>
  "try_finally body cleanup = (case cleanup of Raises e \<Rightarrow> Raises e | Returns u \<Rightarrow> body)"

section \<open>ScrapingMethod and its subclasses\<close>

datatype variant =
    SimpleRequestsMethod | RequestsWithHeadersMethod | HTTPXMethod | CloudScraperMethod
  | CloudScraperWithHeadersMethod | RequestsHTMLMethod | SeleniumMethod
  | SeleniumStealthMethod | CookiePersistentMethod | TorRequestsMethod | SlowRequestsMethod
  | MultipleHeadersMethod | BrowserMimicMethod

text \<open>
  The optional imports at the top of the module: each name is \<^verbatim>\<open>None\<close> (here \<open>False\<close>) when
  its package is not installed.
\<close>

record runtime =
  httpx :: bool
  HTMLSession :: bool
  stealth :: bool

text \<open>
  What the network and the browser do during one call of \<^verbatim>\<open>scrape\<close>; the transport is
  outside the program. \<open>chrome\<close> is the call \<^verbatim>\<open>webdriver.Chrome(options)\<close>, \<open>page\<close> is the rest
  of the \<^verbatim>\<open>try\<close> block (it raises, or yields the text of the response), \<open>quit\<close> is
  \<^verbatim>\<open>driver.quit()\<close>.
\<close>

record world =
  chrome :: "unit outcome"
  page :: "string outcome"
  quit :: "unit outcome"

datatype scrape_event = Trying variant string | DriverQuit

definition fetched :: "string outcome \<Rightarrow> content outcome" where
  \<comment> \<open>\<^verbatim>\<open>return response.text\<close>\<close>
  "fetched r = (case r of Raises e \<Rightarrow> Raises e | Returns text \<Rightarrow> Returns (Some text))"

definition http_scrape :: "world \<Rightarrow> variant \<Rightarrow> string \<Rightarrow> scrape_event list \<times> content outcome" where
  \<comment> \<open>the variants built on requests, httpx, cloudscraper and requests-html\<close>
  "http_scrape w v url =
     ([Trying v url], try_except (fetched (page w)) (\<lambda>e. Returns None))"

definition driver_scrape :: "world \<Rightarrow> variant \<Rightarrow> string \<Rightarrow> scrape_event list \<times> content outcome" where
  \<comment> \<open>the two Selenium variants: \<^verbatim>\<open>driver\<close> stays \<^verbatim>\<open>None\<close> when Chrome does not start\<close>
  "driver_scrape w v url =
     (case chrome w of
        Raises e \<Rightarrow>
          ([Trying v url], try_finally (try_except (Raises e) (\<lambda>e. Returns None)) (Returns ()))
      | Returns d \<Rightarrow>
          ([Trying v url, DriverQuit],
           try_finally (try_except (fetched (page w)) (\<lambda>e. Returns None))
             (try_except (quit w) (\<lambda>e. Returns ()))))"

fun scrape :: "runtime \<Rightarrow> world \<Rightarrow> variant \<Rightarrow> string \<Rightarrow> scrape_event list \<times> content outcome" where
  "scrape rt w HTTPXMethod url =
     (if \<not> httpx rt then ([], Returns None) else http_scrape w HTTPXMethod url)"
| "scrape rt w RequestsHTMLMethod url =
     (if \<not> HTMLSession rt then ([], Returns None)
      else http_scrape w RequestsHTMLMethod url)"
| "scrape rt w SeleniumStealthMethod url =
     (if \<not> stealth rt then ([], Returns None)
      else driver_scrape w SeleniumStealthMethod url)"
| "scrape rt w SeleniumMethod url = driver_scrape w SeleniumMethod url"
| "scrape rt w v url = http_scrape w v url"

definition unavailable :: "runtime \<Rightarrow> variant \<Rightarrow> bool" where
  \<comment> \<open>the optional package of the variant is not installed\<close>
  "unavailable rt v =
     (case v of HTTPXMethod \<Rightarrow> \<not> httpx rt | RequestsHTMLMethod \<Rightarrow> \<not> HTMLSession rt
      | SeleniumStealthMethod \<Rightarrow> \<not> stealth rt | _ \<Rightarrow> False)"

section \<open>RetryMechanism\<close>

text \<open>
  \<^verbatim>\<open>base_delay\<close> is a Python number, an \<^verbatim>\<open>int\<close> (the default \<^verbatim>\<open>1\<close> is one) or a \<^verbatim>\<open>float\<close>.
  The value of a \<^verbatim>\<open>float\<close> is taken as the real number it stands for, without rounding;
  infinities and NaN are not modelled.
\<close>

datatype number = PyInt int | PyFloat real

definition number_value :: "number \<Rightarrow> real" where
  "number_value b = (case b of PyInt n \<Rightarrow> real_of_int n | PyFloat x \<Rightarrow> x)"

record retry_mechanism =
  max_retries :: int
  base_delay :: number

definition scraper_retry_mechanism :: "int \<Rightarrow> retry_mechanism" where
  \<comment> \<open>\<^verbatim>\<open>RetryMechanism(max_retries=max_retries)\<close> of \<^verbatim>\<open>SinglePageScraper.__init__\<close>:
      \<^verbatim>\<open>base_delay\<close> keeps its default\<close>
  "scraper_retry_mechanism n = \<lparr>max_retries = n, base_delay = PyInt 1\<rparr>"

text \<open>
  The statements of the \<^verbatim>\<open>except\<close> block are outside every \<^verbatim>\<open>try\<close>, so an exception of
  theirs leaves \<open>retry_with_backoff\<close>. Two of them can raise. The delay
  \<^verbatim>\<open>self.base_delay * (2 ** attempt) + random.uniform(0, 1)\<close> mixes an \<^verbatim>\<open>int\<close> with a
  \<^verbatim>\<open>float\<close>, and the conversion of an \<^verbatim>\<open>int\<close> to \<^verbatim>\<open>float\<close> raises \<^verbatim>\<open>OverflowError\<close> from
  \<open>2 ^ 1024 - 2 ^ 970\<close> on: the product is converted when \<^verbatim>\<open>base_delay\<close> is an \<^verbatim>\<open>int\<close>, the
  power when it is a \<^verbatim>\<open>float\<close>. And \<^verbatim>\<open>time.sleep\<close> first converts the seconds to a 64-bit
  count of nanoseconds, raising \<^verbatim>\<open>OverflowError\<close> out of that range, and then raises
  \<^verbatim>\<open>ValueError\<close> for a negative length. The messages are those of CPython 3.11.
\<close>

definition float_of_int :: "int \<Rightarrow> real outcome" where
  "float_of_int n =
     (if 2 ^ 1024 - 2 ^ 970 \<le> \<bar>n\<bar>
      then Raises (OverflowError ''int too large to convert to float'')
      else Returns (real_of_int n))"

definition backoff_delay :: "number \<Rightarrow> nat \<Rightarrow> real \<Rightarrow> real outcome" where
  \<comment> \<open>\<^verbatim>\<open>self.base_delay * (2 ** attempt) + random.uniform(0, 1)\<close>, the jitter being \<open>j\<close>\<close>
  "backoff_delay b attempt j =
     (case b of
        PyInt n \<Rightarrow>
          (case float_of_int (n * 2 ^ attempt) of
             Raises e \<Rightarrow> Raises e
           | Returns p \<Rightarrow> Returns (p + j))
      | PyFloat x \<Rightarrow>
          (case float_of_int (2 ^ attempt) of
             Raises e \<Rightarrow> Raises e
           | Returns p \<Rightarrow> Returns (x * p + j)))"

definition max_sleep :: real where
  \<comment> \<open>\<open>2 ^ 63\<close> nanoseconds, in seconds\<close>
  "max_sleep = 2 ^ 63 / 10 ^ 9"

definition time_sleep :: "real \<Rightarrow> unit outcome" where
  "time_sleep secs =
     (if max_sleep < \<bar>secs\<bar>
      then Raises (OverflowError ''timestamp out of range for platform time_t'')
      else if secs < 0 then Raises (ValueError ''sleep length must be non-negative'')
      else Returns ())"

datatype retry_event = Attempt nat | Sleep real

text \<open>
  \<open>func k\<close> is what the wrapped call does when it is made for the \<open>k\<close>-th time, and
  \<open>jitter k\<close> what \<^verbatim>\<open>random.uniform(0, 1)\<close> then yields. \<open>retry_loop\<close> is the \<^verbatim>\<open>for\<close> loop with
  \<open>n\<close> iterations left; when the range is used up the function returns \<^verbatim>\<open>None\<close>. The
  event \<open>Sleep d\<close> is a call of \<^verbatim>\<open>time.sleep\<close> that slept \<open>d\<close> seconds.
\<close>

fun retry_loop ::
  "retry_mechanism \<Rightarrow> (nat \<Rightarrow> content outcome) \<Rightarrow> (nat \<Rightarrow> real) \<Rightarrow> nat \<Rightarrow> nat
     \<Rightarrow> retry_event list \<times> content outcome" where
  "retry_loop rm func jitter 0 attempt = ([], Returns None)"
| "retry_loop rm func jitter (Suc n) attempt =
     (case func attempt of
        Returns v \<Rightarrow> ([Attempt attempt], Returns v)
      | Raises e \<Rightarrow>
          if int attempt = max_retries rm then ([Attempt attempt], Raises e)
          else
            (case backoff_delay (base_delay rm) attempt (jitter attempt) of
               Raises e' \<Rightarrow> ([Attempt attempt], Raises e')
             | Returns delay \<Rightarrow>
                 (case time_sleep delay of
                    Raises e' \<Rightarrow> ([Attempt attempt], Raises e')
                  | Returns u \<Rightarrow>
                      let rest = retry_loop rm func jitter n (Suc attempt)
                      in (Attempt attempt # Sleep delay # fst rest, snd rest))))"

definition retry_with_backoff ::
  "retry_mechanism \<Rightarrow> (nat \<Rightarrow> content outcome) \<Rightarrow> (nat \<Rightarrow> real)
     \<Rightarrow> retry_event list \<times> content outcome" where
  "retry_with_backoff rm func jitter = retry_loop rm func jitter (nat (max_retries rm + 1)) 0"

definition delays_accepted :: "retry_mechanism \<Rightarrow> (nat \<Rightarrow> real) \<Rightarrow> bool" where
  \<comment> \<open>after each attempt but the last allowed one, the delay is computed without overflow
      and \<^verbatim>\<open>time.sleep\<close> accepts it\<close>
  "delays_accepted rm jitter =
     list_all
       (\<lambda>k. backoff_delay (base_delay rm) k (jitter k)
              = Returns (number_value (base_delay rm) * 2 ^ k + jitter k)
            \<and> time_sleep (number_value (base_delay rm) * 2 ^ k + jitter k) = Returns ())
       [0..<nat (max_retries rm)]"

definition attempts :: "retry_event list \<Rightarrow> nat list" where
  \<comment> \<open>the calls made, in order\<close>
  "attempts evs = concat (map (\<lambda>e. case e of Attempt k \<Rightarrow> [k] | Sleep d \<Rightarrow> []) evs)"

definition sleeps :: "retry_event list \<Rightarrow> real list" where
  \<comment> \<open>the delays slept, in order\<close>
  "sleeps evs = concat (map (\<lambda>e. case e of Attempt k \<Rightarrow> [] | Sleep d \<Rightarrow> [d]) evs)"

section \<open>SinglePageScraper\<close>

text \<open>
  The scraper treats its methods alike: it calls \<^verbatim>\<open>_scrape_with_method(method, url)\<close> through
  the retry mechanism and reads \<^verbatim>\<open>method.method_name\<close>. A strategy is therefore a name, what
  the \<open>k\<close>-th call of \<^verbatim>\<open>_scrape_with_method\<close> for it does, and the jitter drawn after the
  \<open>k\<close>-th failure.
\<close>

record strategy =
  method_name :: string
  scrape_with_method :: "nat \<Rightarrow> content outcome"
  random_uniform :: "nat \<Rightarrow> real"

text \<open>
  What a run does, in order: \<open>Invoke i\<close>, method number \<open>i\<close> is handed to
  \<open>retry_with_backoff\<close>; \<open>Work i e\<close>, the retry loop of method \<open>i\<close> makes an attempt or
  sleeps; \<open>Commit i\<close>, the wrapper of method \<open>i\<close> writes the shared dictionary (concurrent
  mode only); \<open>SaveContent c filename url\<close>, the content is handed to the file manager.
\<close>

datatype event =
    Invoke nat
  | Work nat retry_event
  | Commit nat
  | SaveContent content string string

definition retry_result :: "retry_mechanism \<Rightarrow> strategy \<Rightarrow> content outcome" where
  "retry_result rm m = snd (retry_with_backoff rm (scrape_with_method m) (random_uniform m))"

definition retry_trace :: "retry_mechanism \<Rightarrow> nat \<Rightarrow> strategy \<Rightarrow> event list" where
  \<comment> \<open>what running method number \<open>i\<close> through the retry mechanism does\<close>
  "retry_trace rm i m =
     Invoke i # map (Work i) (fst (retry_with_backoff rm (scrape_with_method m) (random_uniform m)))"

definition validates :: "content outcome \<Rightarrow> bool" where
  \<comment> \<open>the call returned, and \<^verbatim>\<open>is_valid_content\<close> accepts what it returned\<close>
  "validates r = (case r of Raises e \<Rightarrow> False | Returns c \<Rightarrow> is_valid_content c)"

definition save_content :: "content \<Rightarrow> string option \<Rightarrow> string \<Rightarrow> event list" where
  \<comment> \<open>\<^verbatim>\<open>if save_to_file: self.file_manager.save_content(content, save_to_file, url)\<close>\<close>
  "save_content c save_to_file url =
     (case save_to_file of
        None \<Rightarrow> []
      | Some filename \<Rightarrow> if filename = [] then [] else [SaveContent c filename url])"

subsection \<open>Sequential mode\<close>

fun scrape_sequential_from ::
  "retry_mechanism \<Rightarrow> string \<Rightarrow> string option \<Rightarrow> nat \<Rightarrow> strategy list \<Rightarrow> event list \<times> content" where
  "scrape_sequential_from rm url save_to_file method_index [] = ([], None)"
| "scrape_sequential_from rm url save_to_file method_index (m # ms) =
     (case retry_result rm m of
        Returns c \<Rightarrow>
          if is_valid_content c
          then (retry_trace rm method_index m @ save_content c save_to_file url, c)
          else
            let rest = scrape_sequential_from rm url save_to_file (Suc method_index) ms
            in (retry_trace rm method_index m @ fst rest, snd rest)
      | Raises e \<Rightarrow>
          let rest = scrape_sequential_from rm url save_to_file (Suc method_index) ms
          in (retry_trace rm method_index m @ fst rest, snd rest))"

definition scrape_sequential ::
  "retry_mechanism \<Rightarrow> string \<Rightarrow> string option \<Rightarrow> strategy list \<Rightarrow> event list \<times> content" where
  \<comment> \<open>\<^verbatim>\<open>enumerate(self.methods, 1)\<close>\<close>
  "scrape_sequential rm url save_to_file ms = scrape_sequential_from rm url save_to_file 1 ms"

definition invoked :: "event list \<Rightarrow> nat list" where
  \<comment> \<open>the numbers of the methods handed to the retry mechanism, in order\<close>
  "invoked evs = concat (map (\<lambda>e. case e of Invoke i \<Rightarrow> [i] | _ \<Rightarrow> []) evs)"

definition traces :: "retry_mechanism \<Rightarrow> nat \<Rightarrow> strategy list \<Rightarrow> event list" where
  \<comment> \<open>the methods of a list run through the retry mechanism one after the other, the
      first of them being method number \<open>i\<close>\<close>
  "traces rm i ms = concat (map2 (retry_trace rm) [i..<i + length ms] ms)"

subsection \<open>Concurrent mode\<close>

text \<open>
  \<^verbatim>\<open>_scrape_concurrent\<close> submits \<^verbatim>\<open>scrape_method_wrapper(method)\<close> for every method to a pool
  of \<^verbatim>\<open>min(len(self.methods), 8)\<close> threads. The threads share the dictionary
  \<^verbatim>\<open>success_result\<close>; the test and the two assignments that commit a result run under
  \<^verbatim>\<open>success_lock\<close>. The race is modelled by interleaving: a state holds the phase of every
  wrapper, the dictionary and the events so far, and a step is one move of one wrapper or
  of the coordinating thread. A schedule, the list of who moves, stands for the thread
  scheduler; a move of a wrapper that cannot move leaves the state as it is.

  The phases of a wrapper follow its code: \<open>Pending\<close> (submitted, not yet picked up by a
  pool thread), \<open>Attempting k\<close> (inside the \<open>k\<close>-th call of \<^verbatim>\<open>_scrape_with_method\<close>),
  \<open>Sleeping k\<close> (inside \<^verbatim>\<open>time.sleep\<close> after the \<open>k\<close>-th failure; the event \<open>Sleep d\<close> is
  recorded when the sleep begins, an exception of the delay or of \<^verbatim>\<open>time.sleep\<close> ends the
  wrapper in its \<^verbatim>\<open>except\<close> clause instead), \<open>Committing c\<close> (the content
  \<open>c\<close> passed the validator, the wrapper is about to take the lock), \<open>Finished r\<close>
  (returned \<open>r\<close>) and \<open>Cancelled\<close> (the future was cancelled before it started).
\<close>

datatype phase =
    Pending | Attempting nat | Sleeping nat | Committing content | Finished content | Cancelled

record success_result =
  result_content :: content
  result_method_name :: "string option"

record race =
  phases :: "nat \<Rightarrow> phase"
  result :: success_result
  events :: "event list"

datatype actor = Worker nat | Coordinator

definition initial :: race where
  "initial = \<lparr>phases = (\<lambda>i. Pending),
              result = \<lparr>result_content = None, result_method_name = None\<rparr>,
              events = []\<rparr>"

definition running :: "phase \<Rightarrow> bool" where
  "running p = (case p of Attempting k \<Rightarrow> True | Sleeping k \<Rightarrow> True | Committing c \<Rightarrow> True
                | _ \<Rightarrow> False)"

definition terminal :: "phase \<Rightarrow> bool" where
  "terminal p = (case p of Finished r \<Rightarrow> True | Cancelled \<Rightarrow> True | _ \<Rightarrow> False)"

definition max_workers :: "strategy list \<Rightarrow> nat" where
  "max_workers ms = min (length ms) 8"

definition may_start :: "strategy list \<Rightarrow> race \<Rightarrow> nat \<Rightarrow> bool" where
  \<comment> \<open>a pool thread is free, and the futures submitted earlier have been picked up\<close>
  "may_start ms st i =
     (length (filter (\<lambda>j. running (phases st j)) [0..<length ms]) < max_workers ms
      \<and> list_all (\<lambda>j. phases st j \<noteq> Pending) [0..<i])"

definition set_phase :: "nat \<Rightarrow> phase \<Rightarrow> race \<Rightarrow> race" where
  "set_phase i p st = st\<lparr>phases := (phases st)(i := p)\<rparr>"

definition emit :: "event \<Rightarrow> race \<Rightarrow> race" where
  "emit e st = st\<lparr>events := events st @ [e]\<rparr>"

definition worker_step :: "retry_mechanism \<Rightarrow> strategy list \<Rightarrow> nat \<Rightarrow> race \<Rightarrow> race" where
  "worker_step rm ms i st =
     (if length ms \<le> i then st
      else case phases st i of
        Pending \<Rightarrow>
          if \<not> may_start ms st i then st
          else if truthy (result_content (result st)) then set_phase i (Finished None) st
          else if 0 < max_retries rm + 1 then emit (Invoke i) (set_phase i (Attempting 0) st)
          else emit (Invoke i) (set_phase i (Finished None) st)
      | Attempting k \<Rightarrow>
          (case scrape_with_method (ms ! i) k of
             Returns c \<Rightarrow>
               emit (Work i (Attempt k))
                 (set_phase i (if is_valid_content c then Committing c else Finished None) st)
           | Raises e \<Rightarrow>
               if int k = max_retries rm
               then emit (Work i (Attempt k)) (set_phase i (Finished None) st)
               else
                 (case backoff_delay (base_delay rm) k (random_uniform (ms ! i) k) of
                    Raises e' \<Rightarrow> emit (Work i (Attempt k)) (set_phase i (Finished None) st)
                  | Returns delay \<Rightarrow>
                      (case time_sleep delay of
                         Raises e' \<Rightarrow>
                           emit (Work i (Attempt k)) (set_phase i (Finished None) st)
                       | Returns u \<Rightarrow>
                           emit (Work i (Sleep delay))
                             (emit (Work i (Attempt k)) (set_phase i (Sleeping k) st)))))
      | Sleeping k \<Rightarrow>
          set_phase i
            (if int (Suc k) < max_retries rm + 1 then Attempting (Suc k) else Finished None) st
      | Committing c \<Rightarrow>
          if \<not> truthy (result_content (result st))
          then emit (Commit i)
                 (set_phase i (Finished c)
                    (st\<lparr>result := \<lparr>result_content = c,
                                    result_method_name = Some (method_name (ms ! i))\<rparr>\<rparr>))
          else set_phase i (Finished c) st
      | Finished r \<Rightarrow> st
      | Cancelled \<Rightarrow> st)"

definition coordinator_step :: "strategy list \<Rightarrow> race \<Rightarrow> race" where
  \<comment> \<open>the body of the \<^verbatim>\<open>as_completed\<close> loop: a future is done and the dictionary holds content,
      so every other future is cancelled, which stops those that have not started\<close>
  "coordinator_step ms st =
     (if list_ex (\<lambda>j. terminal (phases st j)) [0..<length ms]
         \<and> truthy (result_content (result st))
      then st\<lparr>phases := (\<lambda>j. if j < length ms \<and> phases st j = Pending then Cancelled
                                else phases st j)\<rparr>
      else st)"

definition step :: "retry_mechanism \<Rightarrow> strategy list \<Rightarrow> actor \<Rightarrow> race \<Rightarrow> race" where
  "step rm ms a st =
     (case a of Worker i \<Rightarrow> worker_step rm ms i st | Coordinator \<Rightarrow> coordinator_step ms st)"

definition run :: "retry_mechanism \<Rightarrow> strategy list \<Rightarrow> actor list \<Rightarrow> race \<Rightarrow> race" where
  "run rm ms schedule st = fold (step rm ms) schedule st"

definition race_over :: "strategy list \<Rightarrow> race \<Rightarrow> bool" where
  \<comment> \<open>the pool has shut down: every wrapper has returned or was cancelled\<close>
  "race_over ms st = list_all (\<lambda>j. terminal (phases st j)) [0..<length ms]"

definition handle_results ::
  "string \<Rightarrow> string option \<Rightarrow> race \<Rightarrow> event list \<times> content" where
  \<comment> \<open>the part of \<^verbatim>\<open>_scrape_concurrent\<close> after the pool, under the comment "Handle results"\<close>
  "handle_results url save_to_file st =
     (if truthy (result_content (result st))
      then (save_content (result_content (result st)) save_to_file url,
            result_content (result st))
      else ([], None))"

definition scrape_concurrent ::
  "retry_mechanism \<Rightarrow> string \<Rightarrow> string option \<Rightarrow> strategy list \<Rightarrow> actor list
     \<Rightarrow> (event list \<times> content outcome) option" where
  \<comment> \<open>\<open>None\<close>: the schedule ends before the race is over. With no method the pool is
      created with \<^verbatim>\<open>max_workers=0\<close>, which raises \<^verbatim>\<open>ValueError\<close>.\<close>
  "scrape_concurrent rm url save_to_file ms schedule =
     (if ms = [] then Some ([], Raises (ValueError ''max_workers must be greater than 0''))
      else
        let st = run rm ms schedule initial in
        if race_over ms st
        then Some (events st @ fst (handle_results url save_to_file st),
                   Returns (snd (handle_results url save_to_file st)))
        else None)"

definition commits :: "event list \<Rightarrow> nat" where
  \<comment> \<open>how many times a result was written to the dictionary\<close>
  "commits evs = length (filter (\<lambda>e. case e of Commit i \<Rightarrow> True | _ \<Rightarrow> False) evs)"

subsection \<open>Invariants of the race\<close>

text \<open>
  \<open>commit_inv\<close>: a wrapper about to commit holds validated content, and the dictionary was
  written once if it holds content and never otherwise. \<open>thread_inv\<close> ties the phase of a
  wrapper to the retry loop it is executing: what is left of the loop ends as the whole
  call of \<open>retry_with_backoff\<close> does. \<open>winner_ok\<close>: content in the dictionary is the
  validated result of the method whose name stands beside it. \<open>rank\<close> bounds the moves a
  wrapper has left.
\<close>

definition commit_inv :: "race \<Rightarrow> bool" where
  "commit_inv st =
     ((\<forall>i c. phases st i = Committing c \<longrightarrow> is_valid_content c)
      \<and> commits (events st) = (if truthy (result_content (result st)) then 1 else 0)
      \<and> (result_content (result st) = None \<or> is_valid_content (result_content (result st))))"

definition thread_inv :: "retry_mechanism \<Rightarrow> strategy \<Rightarrow> phase \<Rightarrow> bool" where
  "thread_inv rm m p =
     (case p of
        Attempting k \<Rightarrow>
          k < nat (max_retries rm + 1)
          \<and> snd (retry_loop rm (scrape_with_method m) (random_uniform m)
                   (nat (max_retries rm + 1) - k) k) = retry_result rm m
      | Sleeping k \<Rightarrow>
          snd (retry_loop rm (scrape_with_method m) (random_uniform m)
                 (nat (max_retries rm + 1) - Suc k) (Suc k)) = retry_result rm m
      | Committing c \<Rightarrow> retry_result rm m = Returns c \<and> is_valid_content c
      | _ \<Rightarrow> True)"

definition winner_ok :: "retry_mechanism \<Rightarrow> strategy list \<Rightarrow> success_result \<Rightarrow> bool" where
  "winner_ok rm ms r =
     (case result_content r of
        None \<Rightarrow> result_method_name r = None
      | Some s \<Rightarrow>
          list_ex (\<lambda>i. result_method_name r = Some (method_name (ms ! i))
                        \<and> retry_result rm (ms ! i) = Returns (Some s)
                        \<and> is_valid_content (Some s)) [0..<length ms])"

definition race_inv :: "retry_mechanism \<Rightarrow> strategy list \<Rightarrow> race \<Rightarrow> bool" where
  "race_inv rm ms st =
     (list_all (\<lambda>i. thread_inv rm (ms ! i) (phases st i)) [0..<length ms]
      \<and> winner_ok rm ms (result st))"

definition rank :: "retry_mechanism \<Rightarrow> phase \<Rightarrow> nat" where
  "rank rm p =
     (case p of
        Pending \<Rightarrow> 2 * nat (max_retries rm + 1) + 4
      | Attempting k \<Rightarrow> 2 * (nat (max_retries rm + 1) - k) + 3
      | Sleeping k \<Rightarrow> 2 * (nat (max_retries rm + 1) - k) + 2
      | Committing c \<Rightarrow> 1
      | Finished r \<Rightarrow> 0
      | Cancelled \<Rightarrow> 0)"

definition total_rank :: "retry_mechanism \<Rightarrow> strategy list \<Rightarrow> race \<Rightarrow> nat" where
  "total_rank rm ms st = (\<Sum>i<length ms. rank rm (phases st i))"

section \<open>Example strategies\<close>

text \<open>Concrete strategies, on which the theorems below are instantiated.\<close>

definition sample_page :: string where
  "sample_page = ''<div>'' @ replicate 95 CHR ''x''"

definition always_down :: strategy where
  "always_down = \<lparr>method_name = ''Tor Network Requests'',
                   scrape_with_method = (\<lambda>k. Raises (Exception ''refused'')),
                   random_uniform = (\<lambda>k. 0)\<rparr>"

definition always_blocked :: strategy where
  "always_blocked = \<lparr>method_name = ''Simple Requests'',
                      scrape_with_method = (\<lambda>k. Returns (Some ''blocked'')),
                      random_uniform = (\<lambda>k. 0)\<rparr>"

definition serves_page :: strategy where
  "serves_page = \<lparr>method_name = ''CloudScraper'',
                   scrape_with_method = (\<lambda>k. Returns (Some sample_page)),
                   random_uniform = (\<lambda>k. 0)\<rparr>"

definition serves_late :: strategy where
  "serves_late = \<lparr>method_name = ''Selenium WebDriver'',
                   scrape_with_method =
                     (\<lambda>k. if k = 0 then Raises (Exception ''timeout'')
                          else Returns (Some (sample_page @ ''later''))),
                   random_uniform = (\<lambda>k. 0)\<rparr>"

section \<open>Properties of the string functions\<close>

lemma of_char_lower_char:
  "(of_char (lower_char c) :: nat) =
     (let n = of_char c in
      if (65 \<le> n \<and> n \<le> 90) \<or> (192 \<le> n \<and> n \<le> 222 \<and> n \<noteq> 215) then n + 32 else n)"
  by (simp add: lower_char_def Let_def)

lemma isspace_lower_char: "isspace (lower_char c) = isspace c"
  unfolding isspace_def of_char_lower_char by (simp add: Let_def)

lemma length_strip_le: "length (strip s) \<le> length s"
proof -
  have "length (strip s) \<le> length (dropWhile isspace s)"
    unfolding strip_def using length_dropWhile_le [of isspace "rev (dropWhile isspace s)"]
    by simp
  also have "\<dots> \<le> length s"
    by (rule length_dropWhile_le)
  finally show ?thesis .
qed

lemma strip_all_space: "(\<forall>c \<in> set s. isspace c) \<Longrightarrow> strip s = []"
proof -
  assume "\<forall>c \<in> set s. isspace c"
  then have "dropWhile isspace s = []"
    by (simp add: dropWhile_eq_Nil_conv)
  then show ?thesis
    unfolding strip_def by (simp del: dropWhile_eq_Nil_conv)
qed

lemma sublist_strip: "sublist (strip s) s"
proof -
  have a: "suffix (dropWhile isspace s) s"
    by (rule suffix_dropWhile)
  have "suffix (dropWhile isspace (rev (dropWhile isspace s))) (rev (dropWhile isspace s))"
    by (rule suffix_dropWhile)
  then have "prefix (strip s) (dropWhile isspace s)"
    unfolding strip_def by (metis rev_rev_ident suffix_to_prefix)
  then have "sublist (strip s) (dropWhile isspace s)"
    by (rule prefix_imp_sublist)
  moreover have "sublist (dropWhile isspace s) s"
    using a by (rule suffix_imp_sublist)
  ultimately show ?thesis
    by (rule sublist_order.order_trans)
qed

text \<open>A word without whitespace that occurs in a string still occurs after stripping.\<close>

lemma dropWhile_keeps_word:
  assumes "w \<noteq> []" and "\<forall>c \<in> set w. \<not> P c"
  shows "\<exists>ps'. dropWhile P (ps @ w @ ss) = ps' @ w @ ss"
proof (cases "\<forall>x \<in> set ps. P x")
  case True
  from assms obtain c cs where w: "w = c # cs" and "\<not> P c"
    by (cases w) auto
  from True have "dropWhile P (ps @ w @ ss) = dropWhile P (w @ ss)"
    by (simp add: dropWhile_append2)
  also from w \<open>\<not> P c\<close> have "\<dots> = [] @ w @ ss"
    by simp
  finally show ?thesis by blast
next
  case False
  then obtain x where "x \<in> set ps" "\<not> P x"
    by blast
  then have "dropWhile P (ps @ w @ ss) = dropWhile P ps @ w @ ss"
    by (rule dropWhile_append1)
  then show ?thesis by blast
qed

lemma strip_keeps_word:
  assumes "w \<noteq> []" and "\<forall>c \<in> set w. \<not> isspace c" and "sublist w s"
  shows "sublist w (strip s)"
proof -
  from \<open>sublist w s\<close> obtain ps ss where s: "s = ps @ w @ ss"
    by (auto simp: sublist_def)
  from dropWhile_keeps_word [OF assms(1,2)] obtain ps' where
    d1: "dropWhile isspace s = ps' @ w @ ss"
    unfolding s by blast
  have rw: "rev w \<noteq> []" "\<forall>c \<in> set (rev w). \<not> isspace c"
    using assms(1,2) by auto
  from dropWhile_keeps_word [OF rw, of "rev ss" "rev ps'"] obtain ss' where
    d2: "dropWhile isspace (rev ss @ rev w @ rev ps') = ss' @ rev w @ rev ps'"
    by blast
  have "strip s = rev (dropWhile isspace (rev ss @ rev w @ rev ps'))"
    by (simp add: strip_def d1)
  also have "\<dots> = ps' @ w @ rev ss'"
    by (simp add: d2)
  finally show ?thesis
    by (auto simp: sublist_def)
qed

lemma indicator_no_space:
  "indicator \<in> set html_indicators \<Longrightarrow> indicator \<noteq> [] \<and> (\<forall>c \<in> set indicator. \<not> isspace c)"
  by (auto simp: html_indicators_def isspace_def)

lemma has_html_indicator_iff:
  "has_html_indicator s = (\<exists>indicator \<in> set html_indicators. sublist indicator (lower s))"
  by (simp add: has_html_indicator_def list_ex_iff)

lemma lower_word_no_space:
  assumes "lower w \<in> set html_indicators"
  shows "w \<noteq> [] \<and> (\<forall>c \<in> set w. \<not> isspace c)"
proof -
  from indicator_no_space [OF assms]
  have ne: "lower w \<noteq> []" and ns: "\<forall>c \<in> set (lower w). \<not> isspace c"
    by blast+
  from ne have "w \<noteq> []"
    by (auto simp: lower_def)
  moreover have "\<not> isspace c" if "c \<in> set w" for c
  proof -
    from that have "lower_char c \<in> set (lower w)"
      by (simp add: lower_def)
    with ns have "\<not> isspace (lower_char c)"
      by blast
    then show ?thesis
      by (simp add: isspace_lower_char)
  qed
  ultimately show ?thesis by blast
qed

lemma has_html_indicator_strip: "has_html_indicator (strip s) = has_html_indicator s"
proof
  assume "has_html_indicator (strip s)"
  then obtain i where i: "i \<in> set html_indicators" "sublist i (lower (strip s))"
    by (auto simp: has_html_indicator_iff)
  have "sublist (lower (strip s)) (lower s)"
    unfolding lower_def by (rule map_mono_sublist) (rule sublist_strip)
  with i(2) have "sublist i (lower s)"
    by (rule sublist_order.order_trans)
  with i(1) show "has_html_indicator s"
    by (auto simp: has_html_indicator_iff)
next
  assume "has_html_indicator s"
  then obtain i where i: "i \<in> set html_indicators" "sublist i (lower s)"
    by (auto simp: has_html_indicator_iff)
  from i(2) obtain w where w: "sublist w s" "i = lower w"
    unfolding lower_def by (blast dest: sublist_map_rightE)
  from i(1) w(2) have "lower w \<in> set html_indicators"
    by simp
  from lower_word_no_space [OF this] w(1) have "sublist w (strip s)"
    by (blast intro: strip_keeps_word)
  then have "sublist (lower w) (lower (strip s))"
    unfolding lower_def by (rule map_mono_sublist)
  with i(1) w(2) show "has_html_indicator (strip s)"
    by (auto simp: has_html_indicator_iff)
qed

lemma is_valid_content_Some:
  "is_valid_content (Some s) =
     (100 \<le> length (strip s) \<and> (has_html_indicator s \<or> 500 < length (strip s)))"
proof (cases "s = []")
  case True
  then show ?thesis
    by (simp add: is_valid_content_def strip_def)
next
  case False
  then show ?thesis
    by (auto simp: is_valid_content_def Let_def has_html_indicator_strip)
qed

lemma no_lt_no_indicator: "CHR ''<'' \<notin> set s \<Longrightarrow> \<not> has_html_indicator s"
proof
  assume no: "CHR ''<'' \<notin> set s" and "has_html_indicator s"
  then obtain i where i: "i \<in> set html_indicators" "sublist i (lower s)"
    by (auto simp: has_html_indicator_iff)
  from i(1) have "CHR ''<'' \<in> set i"
    by (auto simp: html_indicators_def)
  with i(2) have "CHR ''<'' \<in> set (lower s)"
    using set_mono_sublist by fastforce
  then obtain c where c: "c \<in> set s" "lower_char c = CHR ''<''"
    by (auto simp: lower_def)
  then have "(of_char (lower_char c) :: nat) = 60"
    by simp
  then have "(of_char c :: nat) = 60"
    unfolding of_char_lower_char by (simp add: Let_def split: if_splits)
  then have "c = char_of (60 :: nat)"
    by (metis char_of_char)
  also have "\<dots> = CHR ''<''"
    by code_simp
  finally show False
    using c(1) no by simp
qed

section \<open>Properties of the retry loop\<close>

lemma max_sleep_less_float_limit: "max_sleep + 1 < 2 ^ 1024 - 2 ^ 970"
  by (simp add: max_sleep_def)

lemma float_of_int_in_range:
  assumes "\<bar>real_of_int n\<bar> \<le> max_sleep + 1"
  shows "float_of_int n = Returns (real_of_int n)"
proof -
  from assms max_sleep_less_float_limit
  have "real_of_int \<bar>n\<bar> < real_of_int (2 ^ 1024 - 2 ^ 970)"
    by simp
  then have "\<bar>n\<bar> < 2 ^ 1024 - 2 ^ 970"
    by (simp only: of_int_less_iff)
  then show ?thesis
    by (simp add: float_of_int_def)
qed

lemma float_of_int_power:
  assumes "k < 1024"
  shows "float_of_int (2 ^ k) = Returns (2 ^ k)"
proof -
  from assms have "k \<le> 1023"
    by simp
  then have "(2::int) ^ k \<le> 2 ^ 1023"
    by (rule power_increasing) simp
  also have "\<dots> < 2 ^ 1024 - 2 ^ 970"
    by simp
  finally show ?thesis
    by (simp add: float_of_int_def)
qed

lemma backoff_delay_value:
  "backoff_delay b k j = Returns d \<Longrightarrow> d = number_value b * 2 ^ k + j"
  by (cases b)
    (auto simp: backoff_delay_def float_of_int_def number_value_def
      split: if_splits outcome.splits)

lemma backoff_delay_in_range:
  assumes "0 \<le> number_value b" and "number_value b * 2 ^ k \<le> max_sleep + 1"
    and "(\<exists>x. b = PyFloat x) \<longrightarrow> k < 1024"
  shows "backoff_delay b k j = Returns (number_value b * 2 ^ k + j)"
proof (cases b)
  case (PyInt n)
  with assms(1,2) have "\<bar>real_of_int (n * 2 ^ k)\<bar> \<le> max_sleep + 1"
    by (simp add: number_value_def)
  from float_of_int_in_range [OF this] PyInt show ?thesis
    by (simp add: backoff_delay_def number_value_def)
next
  case (PyFloat x)
  with assms(3) have "k < 1024"
    by blast
  from float_of_int_power [OF this] PyFloat show ?thesis
    by (simp add: backoff_delay_def number_value_def)
qed

lemma time_sleep_in_range: "0 \<le> d \<Longrightarrow> d \<le> max_sleep \<Longrightarrow> time_sleep d = Returns ()"
  by (simp add: time_sleep_def)

lemma delays_accepted_iff:
  "delays_accepted rm jit =
     (\<forall>k. int k < max_retries rm \<longrightarrow>
        backoff_delay (base_delay rm) k (jit k)
          = Returns (number_value (base_delay rm) * 2 ^ k + jit k)
        \<and> time_sleep (number_value (base_delay rm) * 2 ^ k + jit k) = Returns ())"
  by (auto simp: delays_accepted_def list_all_iff)

text \<open>
  Bounds under which every delay is accepted: a base delay that is not negative, jitters
  between 0 and 1, every \<open>base_delay * 2 ^ k + 1\<close> within the range of \<^verbatim>\<open>time.sleep\<close>, and,
  for a \<^verbatim>\<open>float\<close> base delay, at most 1024 retries.
\<close>

lemma delays_accepted_bounds:
  assumes "0 \<le> number_value (base_delay rm)"
    and "\<forall>k. int k < max_retries rm \<longrightarrow>
           0 \<le> jit k \<and> jit k \<le> 1 \<and> number_value (base_delay rm) * 2 ^ k + 1 \<le> max_sleep"
    and "(\<exists>x. base_delay rm = PyFloat x) \<longrightarrow> max_retries rm \<le> 1024"
  shows "delays_accepted rm jit"
  unfolding delays_accepted_iff
proof (intro allI impI)
  fix k assume k: "int k < max_retries rm"
  let ?d = "number_value (base_delay rm) * 2 ^ k + jit k"
  from assms(2) k have j: "0 \<le> jit k" "jit k \<le> 1"
    and b: "number_value (base_delay rm) * 2 ^ k + 1 \<le> max_sleep"
    by blast+
  from assms(3) k have f: "(\<exists>x. base_delay rm = PyFloat x) \<longrightarrow> k < 1024"
    by auto
  from b have "number_value (base_delay rm) * 2 ^ k \<le> max_sleep + 1"
    by simp
  from backoff_delay_in_range [OF assms(1) this f]
  have 1: "backoff_delay (base_delay rm) k (jit k) = Returns ?d" .
  from assms(1) j(1) have "0 \<le> ?d"
    by simp
  moreover from b j(2) have "?d \<le> max_sleep"
    by simp
  ultimately have "time_sleep ?d = Returns ()"
    by (rule time_sleep_in_range)
  with 1 show "backoff_delay (base_delay rm) k (jit k) = Returns ?d \<and> time_sleep ?d = Returns ()"
    by blast
qed

lemma retry_loop_raise_sleep:
  assumes "func attempt = Raises e" and "int attempt \<noteq> max_retries rm"
    and "backoff_delay (base_delay rm) attempt (jit attempt) = Returns d"
    and "time_sleep d = Returns ()"
  shows "retry_loop rm func jit (Suc n) attempt =
           (Attempt attempt # Sleep d # fst (retry_loop rm func jit n (Suc attempt)),
            snd (retry_loop rm func jit n (Suc attempt)))"
  by (subst retry_loop.simps(2)) (simp add: assms Let_def)

lemma retry_loop_all_raise:
  assumes "\<forall>k. int k < max_retries rm \<longrightarrow>
        backoff_delay (base_delay rm) k (jit k)
          = Returns (number_value (base_delay rm) * 2 ^ k + jit k)
        \<and> time_sleep (number_value (base_delay rm) * 2 ^ k + jit k) = Returns ()"
  shows "int (attempt + n) = max_retries rm \<Longrightarrow>
   retry_loop rm (\<lambda>k. Raises (cause k)) jit (Suc n) attempt =
     (concat (map (\<lambda>k. [Attempt k, Sleep (number_value (base_delay rm) * 2 ^ k + jit k)])
                [attempt..<attempt + n])
        @ [Attempt (attempt + n)],
      Raises (cause (attempt + n)))"
proof (induction n arbitrary: attempt)
  case 0
  then show ?case by simp
next
  case (Suc n)
  let ?f = "\<lambda>k. Raises (cause k)"
  let ?d = "number_value (base_delay rm) * 2 ^ attempt + jit attempt"
  from Suc.prems have ne: "int attempt \<noteq> max_retries rm" and lt: "int attempt < max_retries rm"
    by linarith+
  from assms lt have ok: "backoff_delay (base_delay rm) attempt (jit attempt) = Returns ?d"
    "time_sleep ?d = Returns ()"
    by blast+
  from Suc.prems have "int (Suc attempt + n) = max_retries rm"
    by simp
  note ih = Suc.IH [OF this]
  have unfold: "retry_loop rm ?f jit (Suc (Suc n)) attempt =
      (Attempt attempt # Sleep ?d # fst (retry_loop rm ?f jit (Suc n) (Suc attempt)),
       snd (retry_loop rm ?f jit (Suc n) (Suc attempt)))"
    using ne ok by (subst retry_loop.simps(2)) (simp add: Let_def)
  have upt: "[attempt..<attempt + Suc n] = attempt # [Suc attempt..<Suc attempt + n]"
    using upt_conv_Cons [of attempt "attempt + Suc n"] by simp
  show ?case
    unfolding unfold ih upt by simp
qed

lemma retry_with_backoff_all_raise:
  assumes "0 \<le> max_retries rm" and "delays_accepted rm jit"
  shows "retry_with_backoff rm (\<lambda>k. Raises (cause k)) jit =
           (concat (map (\<lambda>k. [Attempt k, Sleep (number_value (base_delay rm) * 2 ^ k + jit k)])
                      [0..<nat (max_retries rm)])
              @ [Attempt (nat (max_retries rm))],
            Raises (cause (nat (max_retries rm))))"
proof -
  from assms(1) have n: "nat (max_retries rm + 1) = Suc (nat (max_retries rm))"
    by linarith
  from assms(1) have m: "int (0 + nat (max_retries rm)) = max_retries rm"
    by simp
  from assms(2) have "\<forall>k. int k < max_retries rm \<longrightarrow>
        backoff_delay (base_delay rm) k (jit k)
          = Returns (number_value (base_delay rm) * 2 ^ k + jit k)
        \<and> time_sleep (number_value (base_delay rm) * 2 ^ k + jit k) = Returns ()"
    by (simp only: delays_accepted_iff)
  from retry_loop_all_raise [OF this m] show ?thesis
    by (simp add: retry_with_backoff_def n)
qed

text \<open>A call that raises every time never yields content, whatever the sleeps do.\<close>

lemma retry_loop_all_raise_not_validates:
  "\<not> validates (snd (retry_loop rm (\<lambda>k. Raises (cause k)) jit n attempt))"
proof (induction n arbitrary: attempt)
  case 0
  show ?case
    by (simp add: validates_def is_valid_content_def)
next
  case (Suc n)
  from Suc [of "Suc attempt"] show ?case
    by (simp add: validates_def Let_def split: outcome.splits)
qed

lemma retry_with_backoff_first_returns:
  assumes "0 \<le> max_retries rm" and "func 0 = Returns v"
  shows "retry_with_backoff rm func jit = ([Attempt 0], Returns v)"
proof -
  from assms(1) have n: "nat (max_retries rm + 1) = Suc (nat (max_retries rm))"
    by linarith
  show ?thesis
    by (simp add: retry_with_backoff_def n assms(2))
qed

lemma attempts_all_raise:
  "attempts (concat (map (\<lambda>k. [Attempt k, Sleep (d k)]) ks) @ [Attempt n]) = ks @ [n]"
  by (induction ks) (simp_all add: attempts_def)

lemma sleeps_all_raise:
  "sleeps (concat (map (\<lambda>k. [Attempt k, Sleep (d k)]) ks) @ [Attempt n]) = map d ks"
  by (induction ks) (simp_all add: sleeps_def)

lemma retry_third_attempt:
  assumes "max_retries rm = 3"
    and "func 0 = Raises e0" and "func 1 = Raises e1" and "func 2 = Returns v"
    and "backoff_delay (base_delay rm) 0 (jit 0) = Returns d0" and "time_sleep d0 = Returns ()"
    and "backoff_delay (base_delay rm) 1 (jit 1) = Returns d1" and "time_sleep d1 = Returns ()"
  shows "retry_with_backoff rm func jit =
     ([Attempt 0, Sleep d0, Attempt 1, Sleep d1, Attempt 2], Returns v)"
proof -
  have n: "nat (max_retries rm + 1) = Suc (Suc (Suc (Suc 0)))"
    using assms(1) by simp
  have f1: "func (Suc 0) = Raises e1"
    using assms(3) by simp
  have f2: "func (Suc (Suc 0)) = Returns v"
    using assms(4) by (simp add: numeral_2_eq_2)
  have b1: "backoff_delay (base_delay rm) (Suc 0) (jit (Suc 0)) = Returns d1"
    using assms(7) by simp
  show ?thesis
    unfolding retry_with_backoff_def n
    by (simp add: Let_def assms(1,2,5,6,8) f1 f2 b1)
qed

text \<open>
  With a base delay of at least one second the second sleep is never shorter than the
  first, whatever the two jitters in \<open>[0, 1]\<close> are. Below one second the jitter can
  reverse the order.
\<close>

lemma backoff_grows:
  fixes b :: real
  assumes "1 \<le> b" and "0 \<le> j0" and "j0 \<le> 1" and "0 \<le> j1" and "j1 \<le> 1"
  shows "b * 2 ^ 0 + j0 \<le> b * 2 ^ 1 + j1"
  using assms by simp

section \<open>Properties of the sequential runner\<close>

lemma traces_Nil: "traces rm i [] = []"
  by (simp add: traces_def)

lemma traces_Cons: "traces rm i (m # ms) = retry_trace rm i m @ traces rm (Suc i) ms"
proof -
  have "[i..<i + length (m # ms)] = i # [Suc i..<Suc i + length ms]"
    using upt_conv_Cons [of i "i + length (m # ms)"] by simp
  then show ?thesis
    by (simp add: traces_def)
qed

lemma invoked_append: "invoked (xs @ ys) = invoked xs @ invoked ys"
  by (simp add: invoked_def)

lemma invoked_retry_trace: "invoked (retry_trace rm i m) = [i]"
proof -
  have "invoked (map (Work i) evs) = []" for evs
    by (induction evs) (simp_all add: invoked_def)
  then show ?thesis
    by (simp add: retry_trace_def invoked_def)
qed

lemma invoked_save_content: "invoked (save_content c save_to_file url) = []"
  by (cases save_to_file) (simp_all add: save_content_def invoked_def)

lemma invoked_traces: "invoked (traces rm i ms) = [i..<i + length ms]"
proof (induction ms arbitrary: i)
  case Nil
  then show ?case by (simp add: traces_Nil invoked_def)
next
  case (Cons m ms)
  have "[i..<i + length (m # ms)] = i # [Suc i..<Suc i + length ms]"
    using upt_conv_Cons [of i "i + length (m # ms)"] by simp
  with Cons.IH [of "Suc i"] show ?case
    by (simp add: traces_Cons invoked_append invoked_retry_trace)
qed

lemma scrape_sequential_from_skip:
  assumes "\<not> validates (retry_result rm m)"
  shows "scrape_sequential_from rm url save_to_file i (m # ms) =
           (retry_trace rm i m @ fst (scrape_sequential_from rm url save_to_file (Suc i) ms),
            snd (scrape_sequential_from rm url save_to_file (Suc i) ms))"
  using assms by (simp add: validates_def Let_def split: outcome.splits)

lemma scrape_sequential_from_hit:
  assumes "retry_result rm m = Returns c" and "is_valid_content c"
  shows "scrape_sequential_from rm url save_to_file i (m # ms) =
           (retry_trace rm i m @ save_content c save_to_file url, c)"
  using assms by simp

lemma scrape_sequential_from_first_valid:
  assumes "\<forall>p \<in> set pre. \<not> validates (retry_result rm p)"
    and "retry_result rm m = Returns c" and "is_valid_content c"
  shows "scrape_sequential_from rm url save_to_file i (pre @ m # post) =
           (traces rm i (pre @ [m]) @ save_content c save_to_file url, c)"
  using assms(1)
proof (induction pre arbitrary: i)
  case Nil
  show ?case
    using scrape_sequential_from_hit [OF assms(2,3)]
    by (simp add: traces_Cons traces_Nil)
next
  case (Cons p pre)
  from Cons.prems have p: "\<not> validates (retry_result rm p)"
    and rest: "\<forall>q \<in> set pre. \<not> validates (retry_result rm q)"
    by simp_all
  show ?case
    using scrape_sequential_from_skip [OF p] Cons.IH [OF rest]
    by (simp add: traces_Cons)
qed

lemma scrape_sequential_from_exhausted:
  assumes "\<forall>p \<in> set ms. \<not> validates (retry_result rm p)"
  shows "scrape_sequential_from rm url save_to_file i ms = (traces rm i ms, None)"
  using assms
proof (induction ms arbitrary: i)
  case Nil
  show ?case by (simp add: traces_Nil)
next
  case (Cons p ms)
  from Cons.prems have p: "\<not> validates (retry_result rm p)"
    and rest: "\<forall>q \<in> set ms. \<not> validates (retry_result rm q)"
    by simp_all
  show ?case
    using scrape_sequential_from_skip [OF p] Cons.IH [OF rest]
    by (simp add: traces_Cons)
qed

section \<open>Properties of the concurrent race\<close>

lemma valid_truthy: "is_valid_content c \<Longrightarrow> truthy c"
  by (cases c) (auto simp: is_valid_content_def truthy_def)

lemma run_Nil: "run rm ms [] st = st"
  by (simp add: run_def)

lemma run_Cons: "run rm ms (a # sched) st = run rm ms sched (step rm ms a st)"
  by (simp add: run_def)

lemma run_append: "run rm ms (s1 @ s2) st = run rm ms s2 (run rm ms s1 st)"
  by (simp add: run_def)

lemma step_keeps_committed_result:
  "truthy (result_content (result st)) \<Longrightarrow> result (step rm ms a st) = result st"
  by (cases a)
    (auto simp: step_def worker_step_def coordinator_step_def set_phase_def emit_def
      split: phase.splits outcome.splits)

lemma run_keeps_committed_result:
  "truthy (result_content (result st)) \<Longrightarrow> result (run rm ms sched st) = result st"
proof (induction sched arbitrary: st)
  case Nil
  show ?case by (simp add: run_Nil)
next
  case (Cons a sched)
  from Cons.prems have r: "result (step rm ms a st) = result st"
    by (rule step_keeps_committed_result)
  with Cons.prems have "truthy (result_content (result (step rm ms a st)))"
    by simp
  from Cons.IH [OF this] r show ?case
    by (simp add: run_Cons)
qed

lemma commits_snoc:
  "commits (evs @ [e]) = commits evs + (case e of Commit i \<Rightarrow> 1 | _ \<Rightarrow> 0)"
  by (cases e) (simp_all add: commits_def)

lemma commits_append: "commits (xs @ ys) = commits xs + commits ys"
  by (simp add: commits_def)

lemma commits_Cons:
  "commits (e # evs) = (case e of Commit i \<Rightarrow> 1 | _ \<Rightarrow> 0) + commits evs"
  by (cases e) (simp_all add: commits_def)

lemma commits_Nil: "commits [] = 0"
  by (simp add: commits_def)

lemma commit_inv_initial: "commit_inv initial"
  by (simp add: commit_inv_def initial_def commits_def truthy_def)

lemma commit_inv_step: "commit_inv st \<Longrightarrow> commit_inv (step rm ms a st)"
  by (cases a)
    (auto simp: commit_inv_def step_def worker_step_def coordinator_step_def set_phase_def
      emit_def commits_append commits_Cons commits_Nil valid_truthy
      split: phase.splits outcome.splits if_splits)

lemma commit_inv_run: "commit_inv st \<Longrightarrow> commit_inv (run rm ms sched st)"
  by (induction sched arbitrary: st) (simp_all add: run_Nil run_Cons commit_inv_step)

lemma thread_inv_start:
  "0 < max_retries rm + 1 \<Longrightarrow> thread_inv rm m (Attempting 0)"
  by (simp add: thread_inv_def retry_result_def retry_with_backoff_def)

lemma retry_loop_unfold:
  assumes "k < n"
  shows "retry_loop rm f jit (n - k) k =
     (case f k of
        Returns v \<Rightarrow> ([Attempt k], Returns v)
      | Raises e \<Rightarrow>
          if int k = max_retries rm then ([Attempt k], Raises e)
          else
            (case backoff_delay (base_delay rm) k (jit k) of
               Raises e' \<Rightarrow> ([Attempt k], Raises e')
             | Returns d \<Rightarrow>
                 (case time_sleep d of
                    Raises e' \<Rightarrow> ([Attempt k], Raises e')
                  | Returns u \<Rightarrow>
                      (Attempt k # Sleep d # fst (retry_loop rm f jit (n - Suc k) (Suc k)),
                       snd (retry_loop rm f jit (n - Suc k) (Suc k))))))"
proof -
  from assms have "n - k = Suc (n - Suc k)"
    by simp
  then show ?thesis
    by (simp add: Let_def split: outcome.splits)
qed

lemma thread_inv_attempt_returns:
  assumes "thread_inv rm m (Attempting k)" and "scrape_with_method m k = Returns c"
  shows "retry_result rm m = Returns c"
proof -
  from assms(1) have k: "k < nat (max_retries rm + 1)"
    and r: "snd (retry_loop rm (scrape_with_method m) (random_uniform m)
                   (nat (max_retries rm + 1) - k) k) = retry_result rm m"
    by (simp_all add: thread_inv_def)
  from r show ?thesis
    unfolding retry_loop_unfold [OF k] by (simp add: assms(2))
qed

lemma thread_inv_attempt_raises:
  assumes "thread_inv rm m (Attempting k)" and "scrape_with_method m k = Raises e"
    and "int k \<noteq> max_retries rm"
    and "backoff_delay (base_delay rm) k (random_uniform m k) = Returns d"
    and "time_sleep d = Returns u"
  shows "thread_inv rm m (Sleeping k)"
proof -
  from assms(1) have k: "k < nat (max_retries rm + 1)"
    and r: "snd (retry_loop rm (scrape_with_method m) (random_uniform m)
                   (nat (max_retries rm + 1) - k) k) = retry_result rm m"
    by (simp_all add: thread_inv_def)
  from r show ?thesis
    unfolding retry_loop_unfold [OF k] by (simp add: assms(2-5) thread_inv_def)
qed

lemma thread_inv_wake:
  assumes "thread_inv rm m (Sleeping k)" and "int (Suc k) < max_retries rm + 1"
  shows "thread_inv rm m (Attempting (Suc k))"
  using assms by (simp add: thread_inv_def)

lemma thread_inv_worker_step:
  assumes "i < length ms" and "thread_inv rm (ms ! i) (phases st i)"
  shows "thread_inv rm (ms ! i) (phases (worker_step rm ms i st) i)"
proof (cases "phases st i")
  case Pending
  then show ?thesis
    using assms(1) thread_inv_start [of rm "ms ! i"]
    by (auto simp: worker_step_def set_phase_def emit_def thread_inv_def)
next
  case (Attempting k)
  show ?thesis
  proof (cases "scrape_with_method (ms ! i) k")
    case raised: (Raises e)
    show ?thesis
    proof (cases "int k \<noteq> max_retries rm
        \<and> (\<exists>d u. backoff_delay (base_delay rm) k (random_uniform (ms ! i) k) = Returns d
                   \<and> time_sleep d = Returns u)")
      case True
      then obtain d u where ne: "int k \<noteq> max_retries rm"
        and d: "backoff_delay (base_delay rm) k (random_uniform (ms ! i) k) = Returns d"
        and u: "time_sleep d = Returns u"
        by blast
      from assms(2) Attempting have "thread_inv rm (ms ! i) (Attempting k)"
        by simp
      from thread_inv_attempt_raises [OF this raised ne d u]
      have "thread_inv rm (ms ! i) (Sleeping k)" .
      moreover from assms(1) Attempting raised ne d u
      have "phases (worker_step rm ms i st) i = Sleeping k"
        by (simp add: worker_step_def set_phase_def emit_def)
      ultimately show ?thesis
        by simp
    next
      case False
      with assms(1) Attempting raised
      have "phases (worker_step rm ms i st) i = Finished None"
        by (auto simp: worker_step_def set_phase_def emit_def split: outcome.splits)
      then show ?thesis
        by (simp add: thread_inv_def)
    qed
  next
    case (Returns c)
    with Attempting assms thread_inv_attempt_returns [of rm "ms ! i" k c] show ?thesis
      by (auto simp: worker_step_def set_phase_def emit_def) (simp_all add: thread_inv_def)
  qed
next
  case (Sleeping k)
  with assms thread_inv_wake [of rm "ms ! i" k] show ?thesis
    by (auto simp: worker_step_def set_phase_def emit_def) (simp add: thread_inv_def)
next
  case (Committing c)
  with assms show ?thesis
    by (auto simp: worker_step_def set_phase_def emit_def thread_inv_def)
next
  case (Finished r)
  with assms show ?thesis
    by (auto simp: worker_step_def)
next
  case Cancelled
  with assms show ?thesis
    by (auto simp: worker_step_def)
qed

lemma worker_step_other:
  "j \<noteq> i \<Longrightarrow> phases (worker_step rm ms i st) j = phases st j"
  by (auto simp: worker_step_def set_phase_def emit_def split: phase.splits outcome.splits)

lemma threads_inv_worker_step:
  assumes "\<forall>j<length ms. thread_inv rm (ms ! j) (phases st j)"
  shows "\<forall>j<length ms. thread_inv rm (ms ! j) (phases (worker_step rm ms i st) j)"
proof (intro allI impI)
  fix j assume j: "j < length ms"
  show "thread_inv rm (ms ! j) (phases (worker_step rm ms i st) j)"
  proof (cases "j = i")
    case True
    with j assms thread_inv_worker_step [of i ms rm st] show ?thesis
      by simp
  next
    case False
    with j assms show ?thesis
      by (simp add: worker_step_other)
  qed
qed

lemma threads_inv_coordinator_step:
  assumes "\<forall>j<length ms. thread_inv rm (ms ! j) (phases st j)"
  shows "\<forall>j<length ms. thread_inv rm (ms ! j) (phases (coordinator_step ms st) j)"
  using assms by (auto simp: coordinator_step_def thread_inv_def)

lemma winner_ok_iff:
  "winner_ok rm ms r =
     (case result_content r of
        None \<Rightarrow> result_method_name r = None
      | Some s \<Rightarrow>
          (\<exists>i<length ms. result_method_name r = Some (method_name (ms ! i))
                        \<and> retry_result rm (ms ! i) = Returns (Some s)
                        \<and> is_valid_content (Some s)))"
  by (auto simp: winner_ok_def list_ex_iff split: option.splits)

lemma winner_ok_worker_step:
  assumes "\<forall>j<length ms. thread_inv rm (ms ! j) (phases st j)" and "winner_ok rm ms (result st)"
  shows "winner_ok rm ms (result (worker_step rm ms i st))"
proof (cases "\<exists>c. i < length ms \<and> phases st i = Committing c \<and> \<not> truthy (result_content (result st))")
  case True
  then obtain c where i: "i < length ms" and p: "phases st i = Committing c"
    and e: "\<not> truthy (result_content (result st))"
    by blast
  from assms(1) i p have c: "retry_result rm (ms ! i) = Returns c" "is_valid_content c"
    by (auto simp: thread_inv_def)
  from c(2) obtain s where s: "c = Some s"
    by (cases c) (auto simp: is_valid_content_def)
  from i p e have "result (worker_step rm ms i st)
      = \<lparr>result_content = c, result_method_name = Some (method_name (ms ! i))\<rparr>"
    by (simp add: worker_step_def set_phase_def emit_def)
  with c s i show ?thesis
    by (auto simp: winner_ok_iff)
next
  case False
  then have "result (worker_step rm ms i st) = result st"
    by (auto simp: worker_step_def set_phase_def emit_def split: phase.splits outcome.splits)
  with assms(2) show ?thesis
    by simp
qed

lemma race_inv_iff:
  "race_inv rm ms st =
     ((\<forall>j<length ms. thread_inv rm (ms ! j) (phases st j)) \<and> winner_ok rm ms (result st))"
  by (auto simp: race_inv_def list_all_iff)

lemma race_inv_initial: "race_inv rm ms initial"
  by (simp add: race_inv_iff winner_ok_iff initial_def thread_inv_def)

lemma race_inv_step: "race_inv rm ms st \<Longrightarrow> race_inv rm ms (step rm ms a st)"
proof (cases a)
  case (Worker i)
  assume "race_inv rm ms st"
  with Worker show ?thesis
    by (simp add: race_inv_iff step_def threads_inv_worker_step winner_ok_worker_step)
next
  case Coordinator
  assume "race_inv rm ms st"
  then have t: "\<forall>j<length ms. thread_inv rm (ms ! j) (phases st j)"
    and w: "winner_ok rm ms (result st)"
    by (simp_all add: race_inv_iff)
  have "result (coordinator_step ms st) = result st"
    by (simp add: coordinator_step_def)
  with w have "winner_ok rm ms (result (coordinator_step ms st))"
    by simp
  with threads_inv_coordinator_step [OF t] Coordinator show ?thesis
    by (simp add: race_inv_iff step_def)
qed

lemma race_inv_run: "race_inv rm ms st \<Longrightarrow> race_inv rm ms (run rm ms sched st)"
  by (induction sched arbitrary: st) (simp_all add: run_Nil run_Cons race_inv_step)

text \<open>Termination: every move that changes the state lowers the rank, and a race that is
  not over has a move that does.\<close>

lemma worker_step_rank:
  assumes "i < length ms"
  shows "worker_step rm ms i st = st
         \<or> rank rm (phases (worker_step rm ms i st) i) < rank rm (phases st i)"
proof (cases "phases st i")
  case Pending
  with assms show ?thesis
    by (auto simp: worker_step_def set_phase_def emit_def rank_def)
next
  case (Attempting k)
  with assms show ?thesis
    by (cases "scrape_with_method (ms ! i) k")
      (auto simp: worker_step_def set_phase_def emit_def rank_def split: outcome.splits)
next
  case (Sleeping k)
  with assms show ?thesis
    by (auto simp: worker_step_def set_phase_def emit_def rank_def)
next
  case (Committing c)
  with assms show ?thesis
    by (auto simp: worker_step_def set_phase_def emit_def rank_def)
next
  case (Finished r)
  with assms show ?thesis
    by (simp add: worker_step_def)
next
  case Cancelled
  with assms show ?thesis
    by (simp add: worker_step_def)
qed

lemma worker_step_out_of_range: "length ms \<le> i \<Longrightarrow> worker_step rm ms i st = st"
  by (simp add: worker_step_def)

lemma total_rank_less:
  assumes "i < length ms" and "rank rm (phases st' i) < rank rm (phases st i)"
    and "\<And>j. j \<noteq> i \<Longrightarrow> rank rm (phases st' j) \<le> rank rm (phases st j)"
  shows "total_rank rm ms st' < total_rank rm ms st"
  unfolding total_rank_def
proof (rule sum_strict_mono_ex1)
  show "finite {..<length ms}" by simp
  show "\<forall>j\<in>{..<length ms}. rank rm (phases st' j) \<le> rank rm (phases st j)"
    using assms(2,3) by (metis less_imp_le)
  show "\<exists>j\<in>{..<length ms}. rank rm (phases st' j) < rank rm (phases st j)"
    using assms(1,2) by blast
qed

lemma worker_step_total_rank:
  "worker_step rm ms i st = st
   \<or> total_rank rm ms (worker_step rm ms i st) < total_rank rm ms st"
proof (cases "i < length ms")
  case False
  then show ?thesis
    by (simp add: worker_step_out_of_range)
next
  case True
  from worker_step_rank [OF True, of rm st] show ?thesis
  proof
    assume "worker_step rm ms i st = st"
    then show ?thesis ..
  next
    assume "rank rm (phases (worker_step rm ms i st) i) < rank rm (phases st i)"
    with True have "total_rank rm ms (worker_step rm ms i st) < total_rank rm ms st"
      by (rule total_rank_less) (simp add: worker_step_other)
    then show ?thesis ..
  qed
qed

lemma coordinator_step_total_rank:
  "coordinator_step ms st = st
   \<or> total_rank rm ms (coordinator_step ms st) < total_rank rm ms st"
proof (cases "list_ex (\<lambda>j. terminal (phases st j)) [0..<length ms]
                \<and> truthy (result_content (result st))")
  case False
  then have "coordinator_step ms st = st"
    by (auto simp: coordinator_step_def)
  then show ?thesis ..
next
  case fire: True
  let ?ph = "\<lambda>j. if j < length ms \<and> phases st j = Pending then Cancelled else phases st j"
  from fire have c: "coordinator_step ms st = st\<lparr>phases := ?ph\<rparr>"
    by (simp add: coordinator_step_def)
  show ?thesis
  proof (cases "\<exists>i<length ms. phases st i = Pending")
    case False
    then have "?ph = phases st"
      by auto
    with c show ?thesis
      by simp
  next
    case True
    then obtain i where i: "i < length ms" "phases st i = Pending"
      by blast
    have "total_rank rm ms (st\<lparr>phases := ?ph\<rparr>) < total_rank rm ms st"
      using i(1)
    proof (rule total_rank_less)
      show "rank rm (phases (st\<lparr>phases := ?ph\<rparr>) i) < rank rm (phases st i)"
        using i by (simp add: rank_def)
      show "rank rm (phases (st\<lparr>phases := ?ph\<rparr>) j) \<le> rank rm (phases st j)" for j
        by (simp add: rank_def)
    qed
    with c show ?thesis
      by simp
  qed
qed

lemma step_total_rank:
  "step rm ms a st = st \<or> total_rank rm ms (step rm ms a st) < total_rank rm ms st"
  by (cases a) (simp_all add: step_def worker_step_total_rank coordinator_step_total_rank)

lemma running_moves:
  assumes "i < length ms" and "running (phases st i)"
  shows "rank rm (phases (worker_step rm ms i st) i) < rank rm (phases st i)"
proof (cases "phases st i")
  case (Attempting k)
  with assms show ?thesis
    by (cases "scrape_with_method (ms ! i) k")
      (auto simp: worker_step_def set_phase_def emit_def rank_def split: outcome.splits)
next
  case (Sleeping k)
  with assms show ?thesis
    by (auto simp: worker_step_def set_phase_def emit_def rank_def)
next
  case (Committing c)
  with assms show ?thesis
    by (auto simp: worker_step_def set_phase_def emit_def rank_def)
qed (use assms in \<open>simp_all add: running_def\<close>)

lemma first_pending_moves:
  assumes "i < length ms" and "phases st i = Pending"
    and "\<forall>j<i. phases st j \<noteq> Pending"
    and "\<forall>j<length ms. \<not> running (phases st j)"
  shows "rank rm (phases (worker_step rm ms i st) i) < rank rm (phases st i)"
proof -
  from assms(4) have "filter (\<lambda>j. running (phases st j)) [0..<length ms] = []"
    by (simp add: filter_empty_conv)
  with assms(1,3) have "may_start ms st i"
    by (auto simp: may_start_def max_workers_def list_all_iff)
  with assms(1,2) show ?thesis
    by (auto simp: worker_step_def set_phase_def emit_def rank_def)
qed

lemma race_progress:
  assumes "\<not> race_over ms st"
  shows "\<exists>a. total_rank rm ms (step rm ms a st) < total_rank rm ms st"
proof (cases "\<exists>i<length ms. running (phases st i)")
  case True
  then obtain i where i: "i < length ms" "running (phases st i)"
    by blast
  from i(1) running_moves [OF i]
  have "total_rank rm ms (worker_step rm ms i st) < total_rank rm ms st"
    by (rule total_rank_less) (simp add: worker_step_other)
  then have "total_rank rm ms (step rm ms (Worker i) st) < total_rank rm ms st"
    by (simp add: step_def)
  then show ?thesis ..
next
  case False
  from assms obtain k where k: "k < length ms" "\<not> terminal (phases st k)"
    by (auto simp: race_over_def list_all_iff)
  with False have "phases st k = Pending"
    by (cases "phases st k") (auto simp: running_def terminal_def)
  with k(1) have ex: "\<exists>i. i < length ms \<and> phases st i = Pending"
    by blast
  define i where "i = (LEAST i. i < length ms \<and> phases st i = Pending)"
  from ex have i: "i < length ms \<and> phases st i = Pending"
    unfolding i_def by (rule LeastI_ex)
  have least: "\<forall>j<i. phases st j \<noteq> Pending"
  proof (intro allI impI)
    fix j assume "j < i"
    then have "\<not> (j < length ms \<and> phases st j = Pending)"
      unfolding i_def by (rule not_less_Least)
    moreover from \<open>j < i\<close> i have "j < length ms"
      by simp
    ultimately show "phases st j \<noteq> Pending"
      by blast
  qed
  from i have il: "i < length ms" and ip: "phases st i = Pending"
    by simp_all
  from False have "\<forall>j<length ms. \<not> running (phases st j)"
    by blast
  with il ip least have
    "rank rm (phases (worker_step rm ms i st) i) < rank rm (phases st i)"
    by (rule first_pending_moves)
  with il have "total_rank rm ms (worker_step rm ms i st) < total_rank rm ms st"
    by (rule total_rank_less) (simp add: worker_step_other)
  then have "total_rank rm ms (step rm ms (Worker i) st) < total_rank rm ms st"
    by (simp add: step_def)
  then show ?thesis ..
qed

lemma race_terminates: "\<exists>schedule. race_over ms (run rm ms schedule st)"
proof (induction "total_rank rm ms st" arbitrary: st rule: less_induct)
  case less
  show ?case
  proof (cases "race_over ms st")
    case True
    then have "race_over ms (run rm ms [] st)"
      by (simp add: run_Nil)
    then show ?thesis ..
  next
    case False
    from race_progress [OF False] obtain a where
      "total_rank rm ms (step rm ms a st) < total_rank rm ms st"
      by blast
    from less [OF this] obtain schedule where
      "race_over ms (run rm ms schedule (step rm ms a st))"
      by blast
    then have "race_over ms (run rm ms (a # schedule) st)"
      by (simp add: run_Cons)
    then show ?thesis ..
  qed
qed

lemma race_over_step: "race_over ms st \<Longrightarrow> step rm ms a st = st"
proof (cases a)
  case (Worker i)
  assume o: "race_over ms st"
  show ?thesis
  proof (cases "i < length ms")
    case True
    with o have "terminal (phases st i)"
      by (simp add: race_over_def list_all_iff)
    with Worker True show ?thesis
      by (cases "phases st i") (simp_all add: step_def worker_step_def terminal_def)
  next
    case False
    with Worker show ?thesis
      by (simp add: step_def worker_step_out_of_range)
  qed
next
  case Coordinator
  assume o: "race_over ms st"
  have "phases st j \<noteq> Pending" if "j < length ms" for j
  proof -
    from o that have "terminal (phases st j)"
      by (simp add: race_over_def list_all_iff)
    then show ?thesis
      by (auto simp: terminal_def)
  qed
  then have "(\<lambda>j. if j < length ms \<and> phases st j = Pending then Cancelled else phases st j)
      = phases st"
    by auto
  with Coordinator show ?thesis
    by (simp add: step_def coordinator_step_def)
qed

lemma no_winner:
  assumes "race_inv rm ms st" and "\<forall>m \<in> set ms. \<not> validates (retry_result rm m)"
  shows "result_content (result st) = None"
proof (cases "result_content (result st)")
  case None
  then show ?thesis .
next
  case (Some s)
  with assms(1) obtain i where "i < length ms"
    "retry_result rm (ms ! i) = Returns (Some s)" "is_valid_content (Some s)"
    by (auto simp: race_inv_iff winner_ok_iff)
  then have "ms ! i \<in> set ms" "validates (retry_result rm (ms ! i))"
    by (simp_all add: validates_def)
  with assms(2) show ?thesis
    by blast
qed

section \<open>The example strategies evaluated\<close>

lemma valid_sample_page: "is_valid_content (Some sample_page)"
  unfolding sample_page_def by code_simp

lemma valid_sample_page_later: "is_valid_content (Some (sample_page @ ''later''))"
  unfolding sample_page_def by code_simp

lemma invalid_blocked: "\<not> is_valid_content (Some ''blocked'')"
  by code_simp

lemma sample_page_nonempty: "sample_page \<noteq> []"
  by (simp add: sample_page_def)

lemma retry_result_always_blocked:
  "0 \<le> max_retries rm \<Longrightarrow> retry_result rm always_blocked = Returns (Some ''blocked'')"
  using retry_with_backoff_first_returns
          [of rm "\<lambda>k. Returns (Some ''blocked'')" "Some ''blocked''" "\<lambda>k. 0"]
  by (simp add: retry_result_def always_blocked_def)

lemma retry_result_serves_page:
  "0 \<le> max_retries rm \<Longrightarrow> retry_result rm serves_page = Returns (Some sample_page)"
  using retry_with_backoff_first_returns
          [of rm "\<lambda>k. Returns (Some sample_page)" "Some sample_page" "\<lambda>k. 0"]
  by (simp add: retry_result_def serves_page_def)

lemma not_validates_always_down:
  "0 \<le> max_retries rm \<Longrightarrow> \<not> validates (retry_result rm always_down)"
  by (simp add: retry_result_def always_down_def retry_with_backoff_def
      retry_loop_all_raise_not_validates)

lemma not_validates_always_blocked:
  "0 \<le> max_retries rm \<Longrightarrow> \<not> validates (retry_result rm always_blocked)"
  by (simp add: retry_result_always_blocked validates_def invalid_blocked)

lemma backoff_delay_default:
  "k < 30 \<Longrightarrow> backoff_delay (PyInt 1) k j = Returns (2 ^ k + j)"
proof -
  assume "k < 30"
  then have "k \<le> 29"
    by simp
  then have "(2::real) ^ k \<le> 2 ^ 29"
    by (rule power_increasing) simp
  also have "\<dots> \<le> max_sleep + 1"
    by (simp add: max_sleep_def)
  finally have "number_value (PyInt 1) * 2 ^ k \<le> max_sleep + 1"
    by (simp add: number_value_def)
  from backoff_delay_in_range [OF _ this, of j] show ?thesis
    by (simp add: number_value_def)
qed

lemma time_sleep_short: "0 \<le> d \<Longrightarrow> d \<le> 1000 \<Longrightarrow> time_sleep d = Returns ()"
  by (rule time_sleep_in_range) (simp_all add: max_sleep_def)

lemmas race_eval =
  run_Nil run_Cons step_def worker_step_def coordinator_step_def set_phase_def emit_def
  may_start_def max_workers_def running_def terminal_def truthy_def initial_def
  scraper_retry_mechanism_def upt_rec backoff_delay_default time_sleep_short
  valid_sample_page valid_sample_page_later invalid_blocked sample_page_nonempty
  always_down_def always_blocked_def serves_page_def serves_late_def

section \<open>Claims about the ContentValidator\<close>

text \<open>
  C3 (as stated). Content of 50 units that contains the marker \<^verbatim>\<open><div\<close> is rejected: the
  length test \<^verbatim>\<open>len(content) < 100\<close> returns before the markers are looked at.
\<close>

theorem marker_50_units_rejected:
  "length (''<div>'' @ replicate 45 CHR ''x'') = 50
   \<and> has_html_indicator (''<div>'' @ replicate 45 CHR ''x'')
   \<and> \<not> is_valid_content (Some (''<div>'' @ replicate 45 CHR ''x''))"
  by code_simp

text \<open>
  C3 (amended). For content that contains a structural marker, the validator accepts it
  exactly when its stripped length is at least 100 units: the marker makes the 500-unit
  threshold unnecessary, but it does not override the 100-unit minimum.
\<close>

theorem marker_accepted_from_100_units:
  "has_html_indicator s \<Longrightarrow> is_valid_content (Some s) = (100 \<le> length (strip s))"
  by (simp add: is_valid_content_Some)

theorem marker_accepted_from_100_units_witness:
  "has_html_indicator (''<div>'' @ replicate 95 CHR ''x'')
   \<and> 100 \<le> length (strip (''<div>'' @ replicate 95 CHR ''x''))
   \<and> is_valid_content (Some (''<div>'' @ replicate 95 CHR ''x''))"
proof -
  have h: "has_html_indicator (''<div>'' @ replicate 95 CHR ''x'')"
    by code_simp
  have l: "100 \<le> length (strip (''<div>'' @ replicate 95 CHR ''x''))"
    by code_simp
  from marker_accepted_from_100_units [OF h] h l show ?thesis
    by simp
qed

text \<open>
  C7 (as stated). Content of 501 units without a structural marker is rejected when one of
  its units is trailing whitespace: the lengths are taken after \<^verbatim>\<open>strip()\<close>, and 500
  stripped units do not exceed the 500-unit threshold.
\<close>

theorem unmarked_501_units_rejected:
  "length (replicate 500 CHR ''a'' @ [CHR 0x0A]) = 501
   \<and> \<not> has_html_indicator (replicate 500 CHR ''a'' @ [CHR 0x0A])
   \<and> \<not> is_valid_content (Some (replicate 500 CHR ''a'' @ [CHR 0x0A]))"
proof -
  have n: "\<not> has_html_indicator (replicate 500 CHR ''a'' @ [CHR 0x0A])"
    by (rule no_lt_no_indicator) simp
  have "dropWhile isspace (replicate 500 CHR ''a'' @ [CHR 0x0A])
          = replicate 500 CHR ''a'' @ [CHR 0x0A]"
    by (simp add: isspace_def dropWhile_append3 replicate_append_same [symmetric])
  then have "strip (replicate 500 CHR ''a'' @ [CHR 0x0A]) = rev (replicate 500 CHR ''a'')"
    by (simp add: strip_def isspace_def)
  then have "length (strip (replicate 500 CHR ''a'' @ [CHR 0x0A])) = 500"
    by simp
  with n show ?thesis
    by (simp add: is_valid_content_Some)
qed

text \<open>
  C7 (amended). With lengths taken after stripping leading and trailing whitespace: the
  validator rejects \<^verbatim>\<open>None\<close>, empty and whitespace-only content; it rejects content of 99
  units without a structural marker; it accepts content of more than 500 stripped units,
  so 501 suffice; and the threshold is exclusive, since content of exactly 500 stripped
  units without a marker is rejected.
\<close>

theorem validator_length_boundaries:
  "\<not> is_valid_content None
   \<and> ((\<forall>c \<in> set s. isspace c) \<longrightarrow> \<not> is_valid_content (Some s))
   \<and> (length s = 99 \<and> \<not> has_html_indicator s \<longrightarrow> \<not> is_valid_content (Some s))
   \<and> (500 < length (strip s) \<longrightarrow> is_valid_content (Some s))
   \<and> (length (strip s) = 500 \<and> \<not> has_html_indicator s \<longrightarrow> \<not> is_valid_content (Some s))"
proof -
  have "\<not> is_valid_content None"
    by (simp add: is_valid_content_def)
  moreover have "\<not> is_valid_content (Some s)" if "\<forall>c \<in> set s. isspace c"
    using strip_all_space [OF that] by (simp add: is_valid_content_Some)
  moreover have "\<not> is_valid_content (Some s)" if "length s = 99"
    using length_strip_le [of s] that by (simp add: is_valid_content_Some)
  moreover have "is_valid_content (Some s)" if "500 < length (strip s)"
    using that by (simp add: is_valid_content_Some)
  moreover have "\<not> is_valid_content (Some s)"
    if "length (strip s) = 500" "\<not> has_html_indicator s"
    using that by (simp add: is_valid_content_Some)
  ultimately show ?thesis
    by blast
qed

theorem validator_length_boundaries_witness:
  "list_all isspace ''   '' \<and> \<not> is_valid_content (Some ''   '')
   \<and> length (replicate 99 CHR ''a'') = 99 \<and> \<not> has_html_indicator (replicate 99 CHR ''a'')
   \<and> \<not> is_valid_content (Some (replicate 99 CHR ''a''))
   \<and> 500 < length (strip (replicate 501 CHR ''a''))
   \<and> is_valid_content (Some (replicate 501 CHR ''a''))
   \<and> length (strip (replicate 500 CHR ''a'')) = 500
   \<and> \<not> has_html_indicator (replicate 500 CHR ''a'')
   \<and> \<not> is_valid_content (Some (replicate 500 CHR ''a''))"
proof -
  have sp: "\<forall>c \<in> set ''   ''. isspace c"
    by (simp add: isspace_def)
  have n99: "\<not> has_html_indicator (replicate 99 CHR ''a'')"
    and n500: "\<not> has_html_indicator (replicate 500 CHR ''a'')"
    by (rule no_lt_no_indicator, simp)+
  have st: "strip (replicate n CHR ''a'') = replicate n CHR ''a''" for n
    by (cases n) (simp_all add: strip_def isspace_def replicate_append_same [symmetric]
        del: replicate_Suc)
  have l501: "500 < length (strip (replicate 501 CHR ''a''))"
    and l500: "length (strip (replicate 500 CHR ''a'')) = 500"
    by (simp_all only: st length_replicate)
  from validator_length_boundaries [of "''   ''"] sp
  have 1: "\<not> is_valid_content (Some ''   '')"
    by blast
  from validator_length_boundaries [of "replicate 99 CHR ''a''"] n99
  have 2: "\<not> is_valid_content (Some (replicate 99 CHR ''a''))"
    by (simp)
  from validator_length_boundaries [of "replicate 501 CHR ''a''"] l501
  have 3: "is_valid_content (Some (replicate 501 CHR ''a''))"
    by blast
  from validator_length_boundaries [of "replicate 500 CHR ''a''"] l500 n500
  have 4: "\<not> is_valid_content (Some (replicate 500 CHR ''a''))"
    by blast
  from sp 1 n99 2 l501 3 l500 n500 4 show ?thesis
    by (simp)
qed

text \<open>
  C10. The marker check is case-insensitive. Content of at least 100 stripped units in
  which some word \<open>w\<close> occurs whose lower-casing is one of the markers \<^verbatim>\<open><html\<close>,
  \<^verbatim>\<open><body\<close>, \<^verbatim>\<open><div\<close>, \<^verbatim>\<open><p\<close>, \<^verbatim>\<open><span\<close> (so \<open>w\<close> is the marker in any letter case) is
  accepted, because the markers are searched in the lower-cased content.
\<close>

theorem marker_check_case_insensitive:
  assumes "100 \<le> length (strip s)"
    and "indicator \<in> set html_indicators"
    and "lower w = indicator"
    and "sublist w s"
  shows "is_valid_content (Some s)"
proof -
  from \<open>sublist w s\<close> have "sublist (lower w) (lower s)"
    unfolding lower_def by (rule map_mono_sublist)
  with assms(2,3) have "has_html_indicator s"
    by (auto simp: has_html_indicator_iff)
  with assms(1) show ?thesis
    by (simp add: is_valid_content_Some)
qed

theorem marker_check_case_insensitive_witness:
  "100 \<le> length (strip (replicate 96 CHR ''x'' @ ''<DIV''))
   \<and> ''<div'' \<in> set html_indicators
   \<and> lower ''<DIV'' = ''<div''
   \<and> sublist ''<DIV'' (replicate 96 CHR ''x'' @ ''<DIV'')
   \<and> is_valid_content (Some (replicate 96 CHR ''x'' @ ''<DIV''))"
proof -
  have a: "100 \<le> length (strip (replicate 96 CHR ''x'' @ ''<DIV''))"
    by code_simp
  have b: "''<div'' \<in> set html_indicators"
    by (simp add: html_indicators_def)
  have c: "lower ''<DIV'' = ''<div''"
    by code_simp
  have d: "sublist ''<DIV'' (replicate 96 CHR ''x'' @ ''<DIV'')"
    by (simp add: sublist_def) blast
  from marker_check_case_insensitive [OF a b c d] a b c d show ?thesis
    by blast
qed

section \<open>Claims about the RetryMechanism\<close>

text \<open>
  C5 (as stated). With \<open>max_retries = 1\<close> and a call that raises on every attempt, a base
  delay of \<^verbatim>\<open>1e10\<close> seconds, or of \<^verbatim>\<open>-1\<close>, makes \<^verbatim>\<open>time.sleep\<close> raise in the \<^verbatim>\<open>except\<close>
  block after the first attempt. The loop ends there, after one attempt, and what
  \<open>retry_with_backoff\<close> raises is the exception of \<^verbatim>\<open>time.sleep\<close>, not the failure cause
  of the call.
\<close>

theorem sleep_failure_replaces_cause:
  "retry_with_backoff \<lparr>max_retries = 1, base_delay = PyFloat 10000000000\<rparr>
      (\<lambda>k. Raises (Exception ''refused'')) (\<lambda>k. 1 / 2)
     = ([Attempt 0], Raises (OverflowError ''timestamp out of range for platform time_t''))
   \<and> retry_with_backoff \<lparr>max_retries = 1, base_delay = PyInt (- 1)\<rparr>
      (\<lambda>k. Raises (Exception ''refused'')) (\<lambda>k. 1 / 2)
     = ([Attempt 0], Raises (ValueError ''sleep length must be non-negative''))"
proof -
  have 1: "retry_loop \<lparr>max_retries = 1, base_delay = PyFloat 10000000000\<rparr>
      (\<lambda>k. Raises (Exception ''refused'')) (\<lambda>k. 1 / 2) (Suc (Suc 0)) 0
     = ([Attempt 0], Raises (OverflowError ''timestamp out of range for platform time_t''))"
    by (simp add: backoff_delay_def float_of_int_def time_sleep_def max_sleep_def)
  have 2: "retry_loop \<lparr>max_retries = 1, base_delay = PyInt (- 1)\<rparr>
      (\<lambda>k. Raises (Exception ''refused'')) (\<lambda>k. 1 / 2) (Suc (Suc 0)) 0
     = ([Attempt 0], Raises (ValueError ''sleep length must be non-negative''))"
    by (simp add: backoff_delay_def float_of_int_def time_sleep_def max_sleep_def)
  have n: "nat (1 + 1) = Suc (Suc 0)"
    by simp
  from 1 2 show ?thesis
    unfolding retry_with_backoff_def retry_mechanism.simps n by blast
qed

text \<open>
  C5 (amended). Let \<open>max_retries\<close> be a retry count, so not negative, and let every backoff
  delay \<open>base_delay * 2 ^ attempt + jitter\<close> be one that is computed without overflow and
  that \<^verbatim>\<open>time.sleep\<close> accepts: not negative and within its range. Then a call that raises
  on every attempt (\<open>cause k\<close> at the \<open>k\<close>-th) is attempted \<open>max_retries + 1\<close> times; after
  each attempt but the last the loop sleeps that delay; and the exception of the last
  attempt, unchanged, is what \<open>retry_with_backoff\<close> raises.
\<close>

theorem retry_exhausted_raises_last_cause:
  assumes "0 \<le> max_retries rm" and "delays_accepted rm jit"
  shows "retry_with_backoff rm (\<lambda>k. Raises (cause k)) jit =
           (concat (map (\<lambda>k. [Attempt k, Sleep (number_value (base_delay rm) * 2 ^ k + jit k)])
                      [0..<nat (max_retries rm)])
              @ [Attempt (nat (max_retries rm))],
            Raises (cause (nat (max_retries rm))))
         \<and> int (length (attempts (fst (retry_with_backoff rm (\<lambda>k. Raises (cause k)) jit))))
             = max_retries rm + 1
         \<and> sleeps (fst (retry_with_backoff rm (\<lambda>k. Raises (cause k)) jit))
             = map (\<lambda>k. number_value (base_delay rm) * 2 ^ k + jit k) [0..<nat (max_retries rm)]"
proof -
  note r = retry_with_backoff_all_raise [OF assms, of cause]
  have a: "int (length (attempts (fst (retry_with_backoff rm (\<lambda>k. Raises (cause k)) jit))))
             = max_retries rm + 1"
    unfolding r fst_conv attempts_all_raise using assms(1) by simp
  have s: "sleeps (fst (retry_with_backoff rm (\<lambda>k. Raises (cause k)) jit))
             = map (\<lambda>k. number_value (base_delay rm) * 2 ^ k + jit k) [0..<nat (max_retries rm)]"
    unfolding r fst_conv sleeps_all_raise ..
  from r a s show ?thesis
    by blast
qed

theorem retry_exhausted_raises_last_cause_witness:
  "(0::int) \<le> max_retries (scraper_retry_mechanism 3)
   \<and> delays_accepted (scraper_retry_mechanism 3) (\<lambda>k. 1 / 2)
   \<and> retry_with_backoff (scraper_retry_mechanism 3)
        (\<lambda>k. Raises (Exception (if k = 3 then ''last'' else ''early''))) (\<lambda>k. 1 / 2) =
     ([Attempt 0, Sleep (3 / 2), Attempt 1, Sleep (5 / 2), Attempt 2, Sleep (9 / 2), Attempt 3],
      Raises (Exception ''last''))"
proof -
  have h: "0 \<le> max_retries (scraper_retry_mechanism 3)"
    by (simp add: scraper_retry_mechanism_def)
  have "(2::real) ^ k + 1 \<le> max_sleep" if "int k < 3" for k
  proof -
    from that have "k \<le> 2"
      by simp
    then have "(2::real) ^ k \<le> 2 ^ 2"
      by (rule power_increasing) simp
    then show ?thesis
      by (simp add: max_sleep_def)
  qed
  then have d: "delays_accepted (scraper_retry_mechanism 3) (\<lambda>k. 1 / 2)"
    by (intro delays_accepted_bounds)
      (simp_all add: scraper_retry_mechanism_def number_value_def)
  have n: "nat (max_retries (scraper_retry_mechanism 3)) = 3"
    by (simp add: scraper_retry_mechanism_def)
  have v: "number_value (base_delay (scraper_retry_mechanism 3)) = 1"
    by (simp add: scraper_retry_mechanism_def number_value_def)
  have u: "[0..<3] = [0, 1, 2]"
    by (simp add: upt_conv_Cons)
  from retry_exhausted_raises_last_cause
         [OF h d, of "\<lambda>k. Exception (if k = 3 then ''last'' else ''early'')"] h d
  show ?thesis
    unfolding n u v by simp
qed

text \<open>
  C8 (as stated). With \<open>max_retries = 3\<close> and a base delay of a tenth of a second, a call
  that raises twice and then returns makes the loop sleep 1.0 second (jitter 0.9) and
  then 0.2 seconds (jitter 0): the second sleep is the shorter one.
\<close>

theorem short_base_delay_sleeps_decrease:
  "retry_with_backoff \<lparr>max_retries = 3, base_delay = PyFloat (1 / 10)\<rparr>
     (\<lambda>k. if k < 2 then Raises (Exception ''timeout'') else Returns (Some ''page''))
     (\<lambda>k. if k = 0 then 9 / 10 else 0)
   = ([Attempt 0, Sleep 1, Attempt 1, Sleep (1 / 5), Attempt 2], Returns (Some ''page''))
   \<and> \<not> sorted (sleeps (fst (retry_with_backoff \<lparr>max_retries = 3, base_delay = PyFloat (1 / 10)\<rparr>
        (\<lambda>k. if k < 2 then Raises (Exception ''timeout'') else Returns (Some ''page''))
        (\<lambda>k. if k = 0 then 9 / 10 else 0))))"
proof -
  let ?rm = "\<lparr>max_retries = 3, base_delay = PyFloat (1 / 10)\<rparr>"
  let ?f = "\<lambda>k::nat. if k < 2 then Raises (Exception ''timeout'') else Returns (Some ''page'')"
  let ?j = "\<lambda>k::nat. if k = 0 then 9 / 10 else (0 :: real)"
  have m: "max_retries ?rm = 3"
    by simp
  have f: "?f 0 = Raises (Exception ''timeout'')" "?f 1 = Raises (Exception ''timeout'')"
    "?f 2 = Returns (Some ''page'')"
    by simp_all
  have d0: "backoff_delay (base_delay ?rm) 0 (?j 0) = Returns 1"
    by (simp add: backoff_delay_def float_of_int_def)
  have "(1 / 10 :: real) * 2 = 1 / 5"
    by simp
  then have d1: "backoff_delay (base_delay ?rm) 1 (?j 1) = Returns (1 / 5)"
    by (simp add: backoff_delay_def float_of_int_def)
  have s0: "time_sleep 1 = Returns ()" and s1: "time_sleep (1 / 5) = Returns ()"
    by (simp_all add: time_sleep_def max_sleep_def)
  note r = retry_third_attempt [OF m f d0 s0 d1 s1]
  have two: "sorted [x, y] = (x \<le> y)" for x y :: real
    by simp
  have s: "sleeps [Attempt 0, Sleep 1, Attempt 1, Sleep (1 / 5), Attempt 2] = [1, 1 / 5]"
    by (simp add: sleeps_def)
  have "\<not> sorted [1, 1 / 5 :: real]"
    unfolding two by simp
  then show ?thesis
    unfolding r fst_conv s by simp
qed

text \<open>
  C8 (amended). Under a retry mechanism with \<open>max_retries = 3\<close> and a base delay of at
  least one second that \<^verbatim>\<open>time.sleep\<close> accepts (twice the base delay plus one second is
  within its range), a call that raises on its first and second attempt and returns \<open>v\<close>
  on its third makes \<open>retry_with_backoff\<close> return \<open>v\<close> after three attempts and exactly two
  sleeps, and the second sleep is at least as long as the first. The jitters are values
  of \<^verbatim>\<open>random.uniform(0, 1)\<close>, so they lie between 0 and 1. The default base delay, which
  the scraper uses, is one second.
\<close>

theorem third_attempt_succeeds:
  assumes "max_retries rm = 3"
    and "1 \<le> number_value (base_delay rm)"
    and "number_value (base_delay rm) * 2 + 1 \<le> max_sleep"
    and "func 0 = Raises e0" and "func 1 = Raises e1" and "func 2 = Returns v"
    and "0 \<le> jit 0" and "jit 0 \<le> 1" and "0 \<le> jit 1" and "jit 1 \<le> 1"
  shows "snd (retry_with_backoff rm func jit) = Returns v
         \<and> attempts (fst (retry_with_backoff rm func jit)) = [0, 1, 2]
         \<and> length (sleeps (fst (retry_with_backoff rm func jit))) = 2
         \<and> sorted (sleeps (fst (retry_with_backoff rm func jit)))"
proof -
  let ?b = "number_value (base_delay rm)"
  from assms(2) have b0: "0 \<le> ?b"
    by simp
  have fl: "(\<exists>x. base_delay rm = PyFloat x) \<longrightarrow> k < 1024" if "k \<le> 1" for k :: nat
    using that by simp
  from assms(2,3) have "?b * 2 ^ 0 \<le> max_sleep + 1"
    by simp
  from backoff_delay_in_range [OF b0 this fl, of "jit 0"]
  have d0: "backoff_delay (base_delay rm) 0 (jit 0) = Returns (?b * 2 ^ 0 + jit 0)"
    by simp
  from assms(3) have "?b * 2 ^ 1 \<le> max_sleep + 1"
    by simp
  from backoff_delay_in_range [OF b0 this fl, of "jit 1"]
  have d1: "backoff_delay (base_delay rm) 1 (jit 1) = Returns (?b * 2 ^ 1 + jit 1)"
    by simp
  from assms(2,3,7,8) have s0: "time_sleep (?b * 2 ^ 0 + jit 0) = Returns ()"
    by (intro time_sleep_in_range) simp_all
  from assms(2,3,9,10) have s1: "time_sleep (?b * 2 ^ 1 + jit 1) = Returns ()"
    by (intro time_sleep_in_range) simp_all
  note r = retry_third_attempt [OF assms(1,4,5,6) d0 s0 d1 s1]
  from backoff_grows [OF assms(2,7-10)] show ?thesis
    unfolding r by (simp add: attempts_def sleeps_def)
qed

theorem third_attempt_succeeds_witness:
  "max_retries (scraper_retry_mechanism 3) = 3
   \<and> 1 \<le> number_value (base_delay (scraper_retry_mechanism 3))
   \<and> number_value (base_delay (scraper_retry_mechanism 3)) * 2 + 1 \<le> max_sleep
   \<and> snd (retry_with_backoff (scraper_retry_mechanism 3)
        (\<lambda>k. if k < 2 then Raises (Exception ''timeout'') else Returns (Some ''page''))
        (\<lambda>k. if k = 0 then 9 / 10 else 1 / 10)) = Returns (Some ''page'')
   \<and> sleeps (fst (retry_with_backoff (scraper_retry_mechanism 3)
        (\<lambda>k. if k < 2 then Raises (Exception ''timeout'') else Returns (Some ''page''))
        (\<lambda>k. if k = 0 then 9 / 10 else 1 / 10))) = [19 / 10, 21 / 10]
   \<and> sorted (sleeps (fst (retry_with_backoff (scraper_retry_mechanism 3)
        (\<lambda>k. if k < 2 then Raises (Exception ''timeout'') else Returns (Some ''page''))
        (\<lambda>k. if k = 0 then 9 / 10 else 1 / 10))))"
proof -
  let ?rm = "scraper_retry_mechanism 3"
  let ?f = "\<lambda>k::nat. if k < 2 then Raises (Exception ''timeout'') else Returns (Some ''page'')"
  let ?j = "\<lambda>k::nat. if k = 0 then 9 / 10 else (1 / 10 :: real)"
  have m: "max_retries ?rm = 3"
    by (simp add: scraper_retry_mechanism_def)
  have b: "1 \<le> number_value (base_delay ?rm)"
    by (simp add: scraper_retry_mechanism_def number_value_def)
  have u: "number_value (base_delay ?rm) * 2 + 1 \<le> max_sleep"
    by (simp add: scraper_retry_mechanism_def number_value_def max_sleep_def)
  have f: "?f 0 = Raises (Exception ''timeout'')" "?f 1 = Raises (Exception ''timeout'')"
    "?f 2 = Returns (Some ''page'')"
    by simp_all
  have j: "0 \<le> ?j 0" "?j 0 \<le> 1" "0 \<le> ?j 1" "?j 1 \<le> 1"
    by simp_all
  have d0: "backoff_delay (base_delay ?rm) 0 (?j 0) = Returns (19 / 10)"
    by (simp add: scraper_retry_mechanism_def backoff_delay_default)
  have d1: "backoff_delay (base_delay ?rm) 1 (?j 1) = Returns (21 / 10)"
    by (simp add: scraper_retry_mechanism_def backoff_delay_default)
  have s: "time_sleep (19 / 10) = Returns ()" "time_sleep (21 / 10) = Returns ()"
    by (simp_all add: time_sleep_short)
  have r: "sleeps (fst (retry_with_backoff ?rm ?f ?j)) = [19 / 10, 21 / 10]"
    unfolding retry_third_attempt [OF m f d0 s(1) d1 s(2)] by (simp add: sleeps_def)
  from third_attempt_succeeds [OF m b u f j] m b u r show ?thesis
    by blast
qed

section \<open>Claims about the strategies and the sequential runner\<close>

text \<open>
  C9. \<^verbatim>\<open>scrape\<close> of every variant returns; it never raises. When the retrieval raises, or
  Chrome does not start, the result is \<^verbatim>\<open>None\<close>; an exception of \<^verbatim>\<open>driver.quit()\<close> is
  swallowed. A variant whose optional package is missing returns \<^verbatim>\<open>None\<close> without entering
  its \<^verbatim>\<open>try\<close> block, so without attempting the retrieval.
\<close>

theorem scrape_never_raises:
  "(\<exists>c. snd (scrape rt w v url) = Returns c)
   \<and> (page w = Raises e \<longrightarrow> snd (scrape rt w v url) = Returns None)
   \<and> ((v = SeleniumMethod \<or> v = SeleniumStealthMethod) \<and> chrome w = Raises e
        \<longrightarrow> snd (scrape rt w v url) = Returns None)
   \<and> (unavailable rt v \<longrightarrow> scrape rt w v url = ([], Returns None))"
proof -
  have h: "(\<exists>c. snd (http_scrape w v url) = Returns c)
      \<and> (page w = Raises e \<longrightarrow> snd (http_scrape w v url) = Returns None)"
    by (cases "page w") (simp_all add: http_scrape_def try_except_def fetched_def)
  have d: "(\<exists>c. snd (driver_scrape w v url) = Returns c)
      \<and> (page w = Raises e \<longrightarrow> snd (driver_scrape w v url) = Returns None)
      \<and> (chrome w = Raises e \<longrightarrow> snd (driver_scrape w v url) = Returns None)"
    by (cases "chrome w"; cases "page w"; cases "quit w")
      (simp_all add: driver_scrape_def try_except_def try_finally_def fetched_def)
  from h d show ?thesis
    by (cases v) (simp_all add: unavailable_def)
qed

theorem scrape_never_raises_witness:
  "scrape \<lparr>httpx = False, HTMLSession = True, stealth = True\<rparr>
      \<lparr>chrome = Returns (), page = Returns ''<html>'', quit = Returns ()\<rparr> HTTPXMethod ''u''
     = ([], Returns None)
   \<and> snd (scrape \<lparr>httpx = True, HTMLSession = True, stealth = True\<rparr>
      \<lparr>chrome = Returns (), page = Raises (Exception ''timeout''), quit = Returns ()\<rparr>
      SimpleRequestsMethod ''u'') = Returns None
   \<and> snd (scrape \<lparr>httpx = True, HTMLSession = True, stealth = True\<rparr>
      \<lparr>chrome = Raises (Exception ''no chrome''), page = Returns ''<html>'', quit = Returns ()\<rparr>
      SeleniumMethod ''u'') = Returns None"
proof -
  let ?rt = "\<lparr>httpx = True, HTMLSession = True, stealth = True\<rparr>"
  have u: "unavailable \<lparr>httpx = False, HTMLSession = True, stealth = True\<rparr> HTTPXMethod"
    by (simp add: unavailable_def)
  from scrape_never_raises [of "\<lparr>httpx = False, HTMLSession = True, stealth = True\<rparr>"
      "\<lparr>chrome = Returns (), page = Returns ''<html>'', quit = Returns ()\<rparr>" HTTPXMethod "''u''"] u
  have 1: "scrape \<lparr>httpx = False, HTMLSession = True, stealth = True\<rparr>
      \<lparr>chrome = Returns (), page = Returns ''<html>'', quit = Returns ()\<rparr> HTTPXMethod ''u''
     = ([], Returns None)"
    by blast
  from scrape_never_raises [of ?rt
      "\<lparr>chrome = Returns (), page = Raises (Exception ''timeout''), quit = Returns ()\<rparr>"
      SimpleRequestsMethod "''u''" "Exception ''timeout''"]
  have 2: "snd (scrape ?rt
      \<lparr>chrome = Returns (), page = Raises (Exception ''timeout''), quit = Returns ()\<rparr>
      SimpleRequestsMethod ''u'') = Returns None"
    by simp
  from scrape_never_raises [of ?rt
      "\<lparr>chrome = Raises (Exception ''no chrome''), page = Returns ''<html>'', quit = Returns ()\<rparr>"
      SeleniumMethod "''u''" "Exception ''no chrome''"]
  have 3: "snd (scrape ?rt
      \<lparr>chrome = Raises (Exception ''no chrome''), page = Returns ''<html>'', quit = Returns ()\<rparr>
      SeleniumMethod ''u'') = Returns None"
    by simp
  from 1 2 3 show ?thesis
    by blast
qed

text \<open>
  C6. The sequential runner hands the methods to the retry mechanism in the order of the
  list. When the methods \<open>pre\<close> do not validate (their retries end in an exception, or they
  return content the validator rejects) and the next method \<open>m\<close> returns content \<open>c\<close> that
  the validator accepts, the runner returns \<open>c\<close>. It has then run \<open>pre\<close> and \<open>m\<close>, each
  through the retry mechanism, in order, and saved \<open>c\<close> if asked to; the methods \<open>post\<close>
  after \<open>m\<close> are not invoked. The failures in \<open>pre\<close> did not stop the iteration.
\<close>

theorem sequential_returns_first_valid:
  assumes "\<forall>p \<in> set pre. \<not> validates (retry_result rm p)"
    and "retry_result rm m = Returns c" and "is_valid_content c"
  shows "snd (scrape_sequential rm url save_to_file (pre @ m # post)) = c
         \<and> fst (scrape_sequential rm url save_to_file (pre @ m # post))
             = traces rm 1 (pre @ [m]) @ save_content c save_to_file url
         \<and> invoked (fst (scrape_sequential rm url save_to_file (pre @ m # post)))
             = [1..<length pre + 2]"
proof -
  have r: "scrape_sequential rm url save_to_file (pre @ m # post)
             = (traces rm 1 (pre @ [m]) @ save_content c save_to_file url, c)"
    unfolding scrape_sequential_def by (rule scrape_sequential_from_first_valid [OF assms])
  have "invoked (traces rm 1 (pre @ [m]) @ save_content c save_to_file url)
          = [1..<length pre + 2]"
    by (simp add: invoked_append invoked_traces invoked_save_content)
  with r show ?thesis
    by simp
qed

theorem sequential_returns_first_valid_witness:
  "list_all (\<lambda>p. \<not> validates (retry_result (scraper_retry_mechanism 3) p))
      [always_down, always_blocked]
   \<and> retry_result (scraper_retry_mechanism 3) serves_page = Returns (Some sample_page)
   \<and> is_valid_content (Some sample_page)
   \<and> snd (scrape_sequential (scraper_retry_mechanism 3) ''u'' (Some ''out.html'')
        ([always_down, always_blocked] @ serves_page # [serves_late])) = Some sample_page
   \<and> invoked (fst (scrape_sequential (scraper_retry_mechanism 3) ''u'' (Some ''out.html'')
        ([always_down, always_blocked] @ serves_page # [serves_late]))) = [1, 2, 3]"
proof -
  let ?rm = "scraper_retry_mechanism 3"
  have m: "0 \<le> max_retries ?rm"
    by (simp add: scraper_retry_mechanism_def)
  have h: "\<forall>p \<in> set [always_down, always_blocked]. \<not> validates (retry_result ?rm p)"
    by (simp add: not_validates_always_down [OF m] not_validates_always_blocked [OF m])
  then have h': "list_all (\<lambda>p. \<not> validates (retry_result ?rm p)) [always_down, always_blocked]"
    by (simp only: list_all_iff)
  note r = retry_result_serves_page [OF m]
  note t = sequential_returns_first_valid
             [OF h r valid_sample_page, of "''u''" "Some ''out.html''" "[serves_late]"]
  from t have 1: "snd (scrape_sequential ?rm ''u'' (Some ''out.html'')
      ([always_down, always_blocked] @ serves_page # [serves_late])) = Some sample_page"
    by blast
  from t have "invoked (fst (scrape_sequential ?rm ''u'' (Some ''out.html'')
      ([always_down, always_blocked] @ serves_page # [serves_late])))
      = [1..<length [always_down, always_blocked] + 2]"
    by blast
  also have "\<dots> = [1, 2, 3]"
    by (simp add: upt_rec)
  finally have 2: "invoked (fst (scrape_sequential ?rm ''u'' (Some ''out.html'')
      ([always_down, always_blocked] @ serves_page # [serves_late]))) = [1, 2, 3]" .
  from h' r valid_sample_page 1 2 show ?thesis
    by blast
qed

section \<open>Claims about the race\<close>

text \<open>
  C1. Whatever the interleaving, the dictionary is written at most once. Once a schedule
  \<open>s1\<close> has led to a state whose dictionary holds content, no continuation \<open>s2\<close> changes
  the content or the method name in it, also when another wrapper arrives later with
  content the validator accepts; exactly one commit has happened; the content is the
  validated result of the method named beside it; and it is the value
  \<^verbatim>\<open>_scrape_concurrent\<close> returns when the race is over.
\<close>

theorem single_winner_commit:
  assumes "truthy (result_content (result (run rm ms s1 initial)))"
  shows "commits (events (run rm ms s initial)) \<le> 1
     \<and> result (run rm ms (s1 @ s2) initial) = result (run rm ms s1 initial)
     \<and> commits (events (run rm ms (s1 @ s2) initial)) = 1
     \<and> (\<exists>i<length ms.
           result_method_name (result (run rm ms s1 initial)) = Some (method_name (ms ! i))
           \<and> retry_result rm (ms ! i) = Returns (result_content (result (run rm ms s1 initial)))
           \<and> is_valid_content (result_content (result (run rm ms s1 initial))))
     \<and> snd (handle_results url save_to_file (run rm ms (s1 @ s2) initial))
          = result_content (result (run rm ms s1 initial))
     \<and> (race_over ms (run rm ms (s1 @ s2) initial) \<longrightarrow>
          (\<exists>evs. scrape_concurrent rm url save_to_file ms (s1 @ s2)
                   = Some (evs, Returns (result_content (result (run rm ms s1 initial))))))"
proof -
  let ?st = "run rm ms s1 initial"
  let ?st' = "run rm ms (s1 @ s2) initial"
  have "commit_inv (run rm ms s initial)"
    by (rule commit_inv_run) (rule commit_inv_initial)
  then have a: "commits (events (run rm ms s initial)) \<le> 1"
    by (simp add: commit_inv_def)
  have same: "result ?st' = result ?st"
    unfolding run_append by (rule run_keeps_committed_result) (rule assms)
  have "commit_inv ?st'"
    by (rule commit_inv_run) (rule commit_inv_initial)
  with same assms have one: "commits (events ?st') = 1"
    by (simp add: commit_inv_def)
  have "race_inv rm ms ?st"
    by (rule race_inv_run) (rule race_inv_initial)
  with assms have who: "\<exists>i<length ms.
      result_method_name (result ?st) = Some (method_name (ms ! i))
      \<and> retry_result rm (ms ! i) = Returns (result_content (result ?st))
      \<and> is_valid_content (result_content (result ?st))"
    by (cases "result_content (result ?st)")
      (auto simp: race_inv_iff winner_ok_iff truthy_def)
  from same assms have ret: "snd (handle_results url save_to_file ?st')
      = result_content (result ?st)"
    by (simp add: handle_results_def)
  from who have "ms \<noteq> []"
    by auto
  with ret have fin: "race_over ms ?st' \<longrightarrow>
      (\<exists>evs. scrape_concurrent rm url save_to_file ms (s1 @ s2)
               = Some (evs, Returns (result_content (result ?st))))"
    by (simp add: scrape_concurrent_def Let_def)
  from a same one who ret fin show ?thesis
    by blast
qed

theorem single_winner_commit_witness:
  "truthy (result_content (result (run (scraper_retry_mechanism 3) [serves_page, serves_late]
      [Worker 0, Worker 1, Worker 1, Worker 0, Worker 0] initial)))
   \<and> phases (run (scraper_retry_mechanism 3) [serves_page, serves_late]
        ([Worker 0, Worker 1, Worker 1, Worker 0, Worker 0] @ [Worker 1, Worker 1]) initial) 1
       = Committing (Some (sample_page @ ''later''))
   \<and> result (run (scraper_retry_mechanism 3) [serves_page, serves_late]
        ([Worker 0, Worker 1, Worker 1, Worker 0, Worker 0] @ [Worker 1, Worker 1, Worker 1])
        initial)
       = \<lparr>result_content = Some sample_page, result_method_name = Some ''CloudScraper''\<rparr>
   \<and> race_over [serves_page, serves_late] (run (scraper_retry_mechanism 3)
        [serves_page, serves_late]
        ([Worker 0, Worker 1, Worker 1, Worker 0, Worker 0] @ [Worker 1, Worker 1, Worker 1])
        initial)"
proof -
  let ?rm = "scraper_retry_mechanism 3"
  let ?ms = "[serves_page, serves_late]"
  let ?s1 = "[Worker 0, Worker 1, Worker 1, Worker 0, Worker 0]"
  have r1: "result (run ?rm ?ms ?s1 initial)
      = \<lparr>result_content = Some sample_page, result_method_name = Some ''CloudScraper''\<rparr>"
    by (simp add: race_eval)
  then have h: "truthy (result_content (result (run ?rm ?ms ?s1 initial)))"
    by (simp add: truthy_def sample_page_nonempty)
  have late: "phases (run ?rm ?ms (?s1 @ [Worker 1, Worker 1]) initial) 1
      = Committing (Some (sample_page @ ''later''))"
    by (simp add: race_eval)
  have over: "race_over ?ms (run ?rm ?ms (?s1 @ [Worker 1, Worker 1, Worker 1]) initial)"
    by (simp add: race_eval race_over_def)
  from single_winner_commit [OF h, of _ "[Worker 1, Worker 1, Worker 1]"] r1
  have "result (run ?rm ?ms (?s1 @ [Worker 1, Worker 1, Worker 1]) initial)
      = \<lparr>result_content = Some sample_page, result_method_name = Some ''CloudScraper''\<rparr>"
    by simp
  with h late over show ?thesis
    by blast
qed

text \<open>
  C2 (as stated). The value returned for an exhausted race is the bare \<^verbatim>\<open>None\<close>: the same
  for one failed strategy and for two, in either mode. It holds no failure cause and no
  entry per strategy; the causes are printed and dropped.
\<close>

theorem exhausted_outcome_carries_nothing:
  "snd (scrape_sequential (scraper_retry_mechanism 3) ''u'' None [always_down]) = None
   \<and> snd (scrape_sequential (scraper_retry_mechanism 3) ''u'' None
            [always_down, always_blocked]) = None
   \<and> race_over [always_blocked] (run (scraper_retry_mechanism 3) [always_blocked]
        [Worker 0, Worker 0] initial)
   \<and> scrape_concurrent (scraper_retry_mechanism 3) ''u'' None [always_blocked]
        [Worker 0, Worker 0]
       = Some ([Invoke 0, Work 0 (Attempt 0)], Returns None)"
proof -
  let ?rm = "scraper_retry_mechanism 3"
  have m: "0 \<le> max_retries ?rm"
    by (simp add: scraper_retry_mechanism_def)
  have 1: "snd (scrape_sequential ?rm ''u'' None [always_down]) = None"
    unfolding scrape_sequential_def
    by (subst scrape_sequential_from_exhausted) (simp_all add: not_validates_always_down [OF m])
  have 2: "snd (scrape_sequential ?rm ''u'' None [always_down, always_blocked]) = None"
    unfolding scrape_sequential_def
    by (subst scrape_sequential_from_exhausted)
      (simp_all add: not_validates_always_down [OF m] not_validates_always_blocked [OF m])
  have 3: "race_over [always_blocked] (run ?rm [always_blocked] [Worker 0, Worker 0] initial)"
    by (simp add: race_eval race_over_def)
  have 4: "scrape_concurrent ?rm ''u'' None [always_blocked] [Worker 0, Worker 0]
       = Some ([Invoke 0, Work 0 (Attempt 0)], Returns None)"
    unfolding scrape_concurrent_def Let_def handle_results_def race_over_def
    by (simp add: race_eval)
  from 1 2 3 4 show ?thesis
    by blast
qed

text \<open>
  C2 (amended). When no strategy validates (each one's retries end in an exception, or it
  returns content the validator rejects), both modes return \<^verbatim>\<open>None\<close> and nothing else. The
  sequential runner has then run every strategy of the list through the retry mechanism,
  in order. The concurrent race over a non-empty list comes to an end under some
  schedule, and under whatever schedule it ends it returns \<^verbatim>\<open>None\<close>.
\<close>

theorem exhausted_returns_None:
  assumes "\<forall>m \<in> set ms. \<not> validates (retry_result rm m)"
  shows "scrape_sequential rm url save_to_file ms = (traces rm 1 ms, None)
     \<and> invoked (fst (scrape_sequential rm url save_to_file ms)) = [1..<length ms + 1]
     \<and> (\<exists>s. race_over ms (run rm ms s initial))
     \<and> (ms \<noteq> [] \<and> race_over ms (run rm ms schedule initial) \<longrightarrow>
          scrape_concurrent rm url save_to_file ms schedule
            = Some (events (run rm ms schedule initial), Returns None))"
proof -
  have s: "scrape_sequential rm url save_to_file ms = (traces rm 1 ms, None)"
    unfolding scrape_sequential_def by (rule scrape_sequential_from_exhausted [OF assms])
  have i: "invoked (fst (scrape_sequential rm url save_to_file ms)) = [1..<length ms + 1]"
    unfolding s by (simp add: invoked_traces)
  have t: "\<exists>s. race_over ms (run rm ms s initial)"
    by (rule race_terminates)
  have "race_inv rm ms (run rm ms schedule initial)"
    by (rule race_inv_run) (rule race_inv_initial)
  from no_winner [OF this assms]
  have "handle_results url save_to_file (run rm ms schedule initial) = ([], None)"
    by (simp add: handle_results_def truthy_def)
  then have c: "ms \<noteq> [] \<and> race_over ms (run rm ms schedule initial) \<longrightarrow>
      scrape_concurrent rm url save_to_file ms schedule
        = Some (events (run rm ms schedule initial), Returns None)"
    by (simp add: scrape_concurrent_def Let_def)
  from s i t c show ?thesis
    by blast
qed

theorem exhausted_returns_None_witness:
  "list_all (\<lambda>m. \<not> validates (retry_result (scraper_retry_mechanism 3) m))
      [always_down, always_blocked]
   \<and> snd (scrape_sequential (scraper_retry_mechanism 3) ''u'' None
            [always_down, always_blocked]) = None
   \<and> invoked (fst (scrape_sequential (scraper_retry_mechanism 3) ''u'' None
            [always_down, always_blocked])) = [1, 2]
   \<and> race_over [always_down, always_blocked]
        (run (scraper_retry_mechanism 3) [always_down, always_blocked]
          [Worker 0, Worker 1, Worker 1, Worker 0, Worker 0, Worker 0, Worker 0, Worker 0,
           Worker 0, Worker 0] initial)
   \<and> snd (the (scrape_concurrent (scraper_retry_mechanism 3) ''u'' None
        [always_down, always_blocked]
        [Worker 0, Worker 1, Worker 1, Worker 0, Worker 0, Worker 0, Worker 0, Worker 0,
         Worker 0, Worker 0])) = Returns None"
proof -
  let ?rm = "scraper_retry_mechanism 3"
  let ?ms = "[always_down, always_blocked]"
  let ?s = "[Worker 0, Worker 1, Worker 1, Worker 0, Worker 0, Worker 0, Worker 0, Worker 0,
             Worker 0, Worker 0]"
  have m: "0 \<le> max_retries ?rm"
    by (simp add: scraper_retry_mechanism_def)
  have h: "\<forall>m \<in> set ?ms. \<not> validates (retry_result ?rm m)"
    by (simp add: not_validates_always_down [OF m] not_validates_always_blocked [OF m])
  then have h': "list_all (\<lambda>m. \<not> validates (retry_result ?rm m)) ?ms"
    by (simp only: list_all_iff)
  have o: "race_over ?ms (run ?rm ?ms ?s initial)"
    by (simp add: race_eval race_over_def)
  note t = exhausted_returns_None [OF h, of "''u''" None ?s]
  from t have 1: "snd (scrape_sequential ?rm ''u'' None ?ms) = None"
    by simp
  from t have "invoked (fst (scrape_sequential ?rm ''u'' None ?ms)) = [1..<length ?ms + 1]"
    by blast
  also have "\<dots> = [1, 2]"
    by (simp add: upt_rec)
  finally have 2: "invoked (fst (scrape_sequential ?rm ''u'' None ?ms)) = [1, 2]" .
  from t o have 3: "snd (the (scrape_concurrent ?rm ''u'' None ?ms ?s)) = Returns None"
    by simp
  from h' 1 2 o 3 show ?thesis
    by blast
qed

text \<open>
  C4 (as stated). Two strategies race under \<open>max_retries = 3\<close>. After the schedule
  \<open>[Worker 0, Worker 1, Worker 0, Worker 0]\<close> the first has committed its page, while the
  second is inside its first attempt: its retry loop is in flight. Its attempt then fails,
  and the loop goes on to sleep three times and to make the three remaining attempts,
  although the winner was committed before the first of these sleeps.
\<close>

theorem retry_loop_runs_on_after_commit:
  "result_content (result (run (scraper_retry_mechanism 3) [serves_page, always_down]
      [Worker 0, Worker 1, Worker 0, Worker 0] initial)) = Some sample_page
   \<and> phases (run (scraper_retry_mechanism 3) [serves_page, always_down]
      [Worker 0, Worker 1, Worker 0, Worker 0] initial) 1 = Attempting 0
   \<and> events (run (scraper_retry_mechanism 3) [serves_page, always_down]
      [Worker 0, Worker 1, Worker 0, Worker 0] initial)
      = [Invoke 0, Invoke 1, Work 0 (Attempt 0), Commit 0]
   \<and> events (run (scraper_retry_mechanism 3) [serves_page, always_down]
      ([Worker 0, Worker 1, Worker 0, Worker 0]
       @ [Worker 1, Worker 1, Worker 1, Worker 1, Worker 1, Worker 1, Worker 1]) initial)
      = [Invoke 0, Invoke 1, Work 0 (Attempt 0), Commit 0,
         Work 1 (Attempt 0), Work 1 (Sleep 1), Work 1 (Attempt 1), Work 1 (Sleep 2),
         Work 1 (Attempt 2), Work 1 (Sleep 4), Work 1 (Attempt 3)]"
  by (simp add: race_eval)

text \<open>
  C4 (amended). A winner is noticed only before a strategy starts. A wrapper that is
  picked up after content was committed returns \<^verbatim>\<open>None\<close> without an attempt, and the
  coordinator, once a future is done and content is committed, cancels the futures not
  yet started. A retry loop in flight does not read the dictionary: each attempt and each
  sleep of it goes on as it would with any other dictionary \<open>r\<close>, until an attempt
  returns or the retries are used up.
\<close>

theorem winner_noticed_only_before_start:
  "((phases st i = Attempting k \<or> phases st i = Sleeping k) \<longrightarrow>
      worker_step rm ms i (st\<lparr>result := r\<rparr>) = (worker_step rm ms i st)\<lparr>result := r\<rparr>)
   \<and> (i < length ms \<and> phases st i = Pending \<and> may_start ms st i
        \<and> truthy (result_content (result st)) \<longrightarrow>
      worker_step rm ms i st = set_phase i (Finished None) st)
   \<and> (i < length ms \<and> phases st i = Pending \<and> truthy (result_content (result st))
        \<and> list_ex (\<lambda>j. terminal (phases st j)) [0..<length ms] \<longrightarrow>
      phases (coordinator_step ms st) i = Cancelled)"
proof -
  have a: "worker_step rm ms i (st\<lparr>result := r\<rparr>) = (worker_step rm ms i st)\<lparr>result := r\<rparr>"
    if "phases st i = Attempting k \<or> phases st i = Sleeping k"
    using that
    by (cases "scrape_with_method (ms ! i) k")
      (auto simp: worker_step_def set_phase_def emit_def split: outcome.splits)
  have b: "worker_step rm ms i st = set_phase i (Finished None) st"
    if "i < length ms" "phases st i = Pending" "may_start ms st i"
      "truthy (result_content (result st))"
    using that by (simp add: worker_step_def)
  have c: "phases (coordinator_step ms st) i = Cancelled"
    if "i < length ms" "phases st i = Pending" "truthy (result_content (result st))"
      "list_ex (\<lambda>j. terminal (phases st j)) [0..<length ms]"
    using that by (simp add: coordinator_step_def)
  from a b c show ?thesis
    by blast
qed

theorem winner_noticed_only_before_start_witness:
  "phases (run (scraper_retry_mechanism 3) [serves_page, always_down]
      [Worker 0, Worker 1, Worker 0, Worker 0] initial) 1 = Attempting 0
   \<and> worker_step (scraper_retry_mechanism 3) [serves_page, always_down] 1
       ((run (scraper_retry_mechanism 3) [serves_page, always_down]
          [Worker 0, Worker 1, Worker 0, Worker 0] initial)\<lparr>result := result initial\<rparr>)
     = (worker_step (scraper_retry_mechanism 3) [serves_page, always_down] 1
         (run (scraper_retry_mechanism 3) [serves_page, always_down]
           [Worker 0, Worker 1, Worker 0, Worker 0] initial))\<lparr>result := result initial\<rparr>
   \<and> phases (run (scraper_retry_mechanism 3) [serves_page, always_down]
      [Worker 0, Worker 0, Worker 0] initial) 1 = Pending
   \<and> truthy (result_content (result (run (scraper_retry_mechanism 3) [serves_page, always_down]
      [Worker 0, Worker 0, Worker 0] initial)))
   \<and> phases (worker_step (scraper_retry_mechanism 3) [serves_page, always_down] 1
       (run (scraper_retry_mechanism 3) [serves_page, always_down]
          [Worker 0, Worker 0, Worker 0] initial)) 1 = Finished None
   \<and> phases (coordinator_step [serves_page, always_down]
       (run (scraper_retry_mechanism 3) [serves_page, always_down]
          [Worker 0, Worker 0, Worker 0] initial)) 1 = Cancelled"
proof -
  let ?rm = "scraper_retry_mechanism 3"
  let ?ms = "[serves_page, always_down]"
  let ?a = "run ?rm ?ms [Worker 0, Worker 1, Worker 0, Worker 0] initial"
  let ?b = "run ?rm ?ms [Worker 0, Worker 0, Worker 0] initial"
  have pa: "phases ?a 1 = Attempting 0"
    by (simp add: race_eval)
  have pb: "phases ?b 1 = Pending"
    by (simp add: race_eval)
  have tb: "truthy (result_content (result ?b))"
    by (simp add: race_eval)
  have mb: "may_start ?ms ?b 1"
    by (simp add: race_eval)
  have eb: "list_ex (\<lambda>j. terminal (phases ?b j)) [0..<length ?ms]"
    by (simp add: race_eval)
  have l: "(1::nat) < length ?ms"
    by simp
  from winner_noticed_only_before_start [of ?a 1 0 ?rm ?ms "result initial"] pa
  have 1: "worker_step ?rm ?ms 1 (?a\<lparr>result := result initial\<rparr>)
      = (worker_step ?rm ?ms 1 ?a)\<lparr>result := result initial\<rparr>"
    by blast
  from winner_noticed_only_before_start [of ?b 1 _ ?rm ?ms] l pb tb mb
  have "worker_step ?rm ?ms 1 ?b = set_phase 1 (Finished None) ?b"
    by blast
  then have 2: "phases (worker_step ?rm ?ms 1 ?b) 1 = Finished None"
    by (simp add: set_phase_def)
  from winner_noticed_only_before_start [of ?b 1 _ ?rm ?ms] l pb tb eb
  have 3: "phases (coordinator_step ?ms ?b) 1 = Cancelled"
    by blast
  from pa 1 pb tb 2 3 show ?thesis
    by blast
qed

end
